theory Spec2Isabelle
  imports Main "HOL-Library.Multiset" "HOL-Library.Monad_Syntax"
begin

section \<open>Python lists of integers\<close>

text \<open>
  The sorting routines of \<^verbatim>\<open>introsort_goes_brr.py\<close> work on one Python list of
  unbounded integers. A list is an \<^typ>\<open>int list\<close>, an index is an \<^typ>\<open>int\<close>.
  Reading or writing \<^verbatim>\<open>arr[i]\<close> counts a negative index from the end and raises
  IndexError outside \<open>[-len, len)\<close>; the raise is the result \<open>None\<close>. Every routine
  that mutates the list returns the list it leaves behind.
\<close>

definition py_get :: "int list \<Rightarrow> int \<Rightarrow> int option" where
  "py_get arr i =
     (let n = int (length arr); k = (if i < 0 then n + i else i)
      in if 0 \<le> k \<and> k < n then Some (arr ! nat k) else None)"

definition py_set :: "int list \<Rightarrow> int \<Rightarrow> int \<Rightarrow> int list option" where
  "py_set arr i v =
     (let n = int (length arr); k = (if i < 0 then n + i else i)
      in if 0 \<le> k \<and> k < n then Some (arr[nat k := v]) else None)"

text \<open>
  \<^verbatim>\<open>arr[i], arr[j] = arr[j], arr[i]\<close>: the right-hand side is read first
  (\<^verbatim>\<open>arr[j]\<close>, then \<^verbatim>\<open>arr[i]\<close>), then the two stores happen from left to right.
\<close>

definition py_swap :: "int list \<Rightarrow> int \<Rightarrow> int \<Rightarrow> int list option" where
  "py_swap arr i j =
     do { x \<leftarrow> py_get arr j; y \<leftarrow> py_get arr i;
          arr1 \<leftarrow> py_set arr i x; py_set arr1 j y }"

section \<open>Hoare partition\<close>

text \<open>
  The two scan loops of the partition, \<^verbatim>\<open>while arr[i] < pivot: i += 1\<close> and
  \<^verbatim>\<open>while arr[j] > pivot: j -= 1\<close>. Each returns the cursor it stops at together
  with the indices it has read, in the order of the reads.
\<close>

function scan_up :: "int list \<Rightarrow> int \<Rightarrow> int \<Rightarrow> (int \<times> int list) option" where
  "scan_up arr pivot i =
     (case py_get arr i of
        None \<Rightarrow> None
      | Some x \<Rightarrow>
          if x < pivot
          then map_option (\<lambda>(i', reads). (i', i # reads)) (scan_up arr pivot (i + 1))
          else Some (i, [i]))"
  by pat_completeness auto
termination
  by (relation "measure (\<lambda>(arr, pivot, i). nat (int (length arr) - i))")
     (auto simp: py_get_def Let_def split: if_splits)

declare scan_up.simps [simp del]

function scan_down :: "int list \<Rightarrow> int \<Rightarrow> int \<Rightarrow> (int \<times> int list) option" where
  "scan_down arr pivot j =
     (case py_get arr j of
        None \<Rightarrow> None
      | Some x \<Rightarrow>
          if x > pivot
          then map_option (\<lambda>(j', reads). (j', j # reads)) (scan_down arr pivot (j - 1))
          else Some (j, [j]))"
  by pat_completeness auto
termination
  by (relation "measure (\<lambda>(arr, pivot, j). nat (int (length arr) + j + 1))")
     (auto simp: py_get_def Let_def split: if_splits)

declare scan_down.simps [simp del]

lemma scan_up_ge: "scan_up arr pivot i = Some (i', reads) \<Longrightarrow> i \<le> i'"
proof (induction arr pivot i arbitrary: i' reads rule: scan_up.induct)
  case (1 arr pivot i)
  from "1.prems" show ?case
    by (subst (asm) scan_up.simps) (auto split: option.splits if_splits dest!: "1.IH")
qed

lemma scan_down_le: "scan_down arr pivot j = Some (j', reads) \<Longrightarrow> j' \<le> j"
proof (induction arr pivot j arbitrary: j' reads rule: scan_down.induct)
  case (1 arr pivot j)
  from "1.prems" show ?case
    by (subst (asm) scan_down.simps) (auto split: option.splits if_splits dest!: "1.IH")
qed

text \<open>
  The loop \<^verbatim>\<open>while True: i += 1; <scan>; j -= 1; <scan>; if i >= j: ...; swap\<close>
  that \<^verbatim>\<open>_hoare_partition\<close> (lines 49-58) and \<^verbatim>\<open>_introsort\<close> (lines 133-142)
  both contain. The arguments \<open>i\<close> and \<open>j\<close> are the cursors at the head of the loop.
  The result is the list, the cursor \<open>j\<close> at the exit and the indices read by the scans.
\<close>

function partition_loop ::
  "int list \<Rightarrow> int \<Rightarrow> int \<Rightarrow> int \<Rightarrow> (int list \<times> int \<times> int list) option" where
  "partition_loop arr pivot i j =
     (case scan_up arr pivot (i + 1) of
        None \<Rightarrow> None
      | Some (i', ri) \<Rightarrow>
         (case scan_down arr pivot (j - 1) of
            None \<Rightarrow> None
          | Some (j', rj) \<Rightarrow>
              if i' \<ge> j' then Some (arr, j', ri @ rj)
              else (case py_swap arr i' j' of
                      None \<Rightarrow> None
                    | Some arr' \<Rightarrow>
                        map_option (\<lambda>(a, s, reads). (a, s, ri @ rj @ reads))
                          (partition_loop arr' pivot i' j'))))"
  by pat_completeness auto
termination
proof (relation "measure (\<lambda>(arr, pivot, i, j). nat (j - i))", goal_cases)
  case 1
  show ?case by simp
next
  case (2 arr pivot i j x2 i' ri x2a j' rj x2b)
  then show ?case
    using scan_up_ge[of arr pivot "i + 1" i' ri] scan_down_le[of arr pivot "j - 1" j' rj]
    by auto
qed

declare partition_loop.simps [simp del]

text \<open>\<^verbatim>\<open>_hoare_partition\<close>: the pivot is the middle element, \<^verbatim>\<open>arr[(low + high) >> 1]\<close>.\<close>

definition hoare_partition :: "int list \<Rightarrow> int \<Rightarrow> int \<Rightarrow> (int list \<times> int) option" where
  "hoare_partition arr low high =
     do { pivot \<leftarrow> py_get arr (drop_bit 1 (low + high));
          (arr', j, reads) \<leftarrow> partition_loop arr pivot (low - 1) (high + 1);
          Some (arr', j) }"

subsection \<open>Valid indices\<close>

lemma py_get_valid: "0 \<le> i \<Longrightarrow> i < int (length arr) \<Longrightarrow> py_get arr i = Some (arr ! nat i)"
  by (simp add: py_get_def)

lemma py_set_valid:
  "0 \<le> i \<Longrightarrow> i < int (length arr) \<Longrightarrow> py_set arr i v = Some (arr[nat i := v])"
  by (simp add: py_set_def)

lemma py_swap_valid:
  "0 \<le> i \<Longrightarrow> i < int (length arr) \<Longrightarrow> 0 \<le> j \<Longrightarrow> j < int (length arr) \<Longrightarrow>
   py_swap arr i j = Some (arr[nat i := arr ! nat j, nat j := arr ! nat i])"
  by (simp add: py_swap_def py_get_valid py_set_valid)

lemma scan_up_spec:
  assumes "0 \<le> i" "i \<le> k" "k < int (length arr)" "pivot \<le> arr ! nat k"
  shows "\<exists>i'. scan_up arr pivot i = Some (i', [i..i']) \<and> i \<le> i' \<and> i' \<le> k \<and>
           pivot \<le> arr ! nat i' \<and> (\<forall>m. i \<le> m \<and> m < i' \<longrightarrow> arr ! nat m < pivot)"
  using assms
proof (induction arr pivot i rule: scan_up.induct)
  case (1 arr pivot i)
  have g: "py_get arr i = Some (arr ! nat i)"
    using "1.prems" by (simp add: py_get_valid)
  show ?case
  proof (cases "arr ! nat i < pivot")
    case True
    then have "i \<noteq> k" using "1.prems" by auto
    then have "i + 1 \<le> k" using "1.prems" by simp
    with "1.IH"[OF g True] "1.prems" obtain i' where
      h: "scan_up arr pivot (i + 1) = Some (i', [i + 1..i'])" "i + 1 \<le> i'" "i' \<le> k"
         "pivot \<le> arr ! nat i'" "\<forall>m. i + 1 \<le> m \<and> m < i' \<longrightarrow> arr ! nat m < pivot"
      by auto
    have u: "[i..i'] = i # [i + 1..i']" using h(2) by (simp add: upto_rec1)
    have "\<forall>m. i \<le> m \<and> m < i' \<longrightarrow> arr ! nat m < pivot"
    proof (intro allI impI)
      fix m assume "i \<le> m \<and> m < i'"
      then show "arr ! nat m < pivot" using h(5) True by (cases "m = i") auto
    qed
    with h u g True show ?thesis
      by (subst scan_up.simps) auto
  next
    case False
    with g "1.prems" show ?thesis
      by (subst scan_up.simps) auto
  qed
qed

lemma scan_down_spec:
  assumes "0 \<le> k" "k \<le> j" "j < int (length arr)" "arr ! nat k \<le> pivot"
  shows "\<exists>j'. scan_down arr pivot j = Some (j', rev [j'..j]) \<and> k \<le> j' \<and> j' \<le> j \<and>
           arr ! nat j' \<le> pivot \<and> (\<forall>m. j' < m \<and> m \<le> j \<longrightarrow> pivot < arr ! nat m)"
  using assms
proof (induction arr pivot j rule: scan_down.induct)
  case (1 arr pivot j)
  have g: "py_get arr j = Some (arr ! nat j)"
    using "1.prems" by (simp add: py_get_valid)
  show ?case
  proof (cases "pivot < arr ! nat j")
    case True
    then have "j \<noteq> k" using "1.prems" by auto
    then have "k \<le> j - 1" using "1.prems" by simp
    with "1.IH"[OF g True] "1.prems" obtain j' where
      h: "scan_down arr pivot (j - 1) = Some (j', rev [j'..j - 1])" "k \<le> j'" "j' \<le> j - 1"
         "arr ! nat j' \<le> pivot" "\<forall>m. j' < m \<and> m \<le> j - 1 \<longrightarrow> pivot < arr ! nat m"
      by auto
    have u: "rev [j'..j] = j # rev [j'..j - 1]" using h(3) by (simp add: upto_rec2)
    have "\<forall>m. j' < m \<and> m \<le> j \<longrightarrow> pivot < arr ! nat m"
    proof (intro allI impI)
      fix m assume "j' < m \<and> m \<le> j"
      then show "pivot < arr ! nat m" using h(5) True by (cases "m = j") auto
    qed
    with h u g True show ?thesis
      by (subst scan_down.simps) auto
  next
    case False
    with g "1.prems" show ?thesis
      by (subst scan_down.simps) auto
  qed
qed

subsection \<open>The loop invariant\<close>

lemma partition_loop_spec:
  assumes "0 \<le> low" "high < int (length arr)" "low - 1 \<le> i" "i < j" "j \<le> high + 1"
    and "\<forall>k. low \<le> k \<and> k \<le> i \<longrightarrow> arr ! nat k \<le> pivot"
    and "\<forall>k. j \<le> k \<and> k \<le> high \<longrightarrow> pivot \<le> arr ! nat k"
    and "\<exists>k. i < k \<and> k \<le> high \<and> pivot \<le> arr ! nat k"
    and "\<exists>k. low \<le> k \<and> k < j \<and> arr ! nat k \<le> pivot"
  shows "\<exists>arr' s reads. partition_loop arr pivot i j = Some (arr', s, reads) \<and>
     length arr' = length arr \<and> mset arr' = mset arr \<and>
     (\<forall>n. int n < low \<or> high < int n \<longrightarrow> arr' ! n = arr ! n) \<and>
     low \<le> s \<and> s < j \<and>
     (\<forall>k. low \<le> k \<and> k \<le> s \<longrightarrow> arr' ! nat k \<le> pivot) \<and>
     (\<forall>k. s < k \<and> k \<le> high \<longrightarrow> pivot \<le> arr' ! nat k) \<and>
     (\<forall>r \<in> set reads. low \<le> r \<and> r \<le> high) \<and>
     (s = high \<longrightarrow> (\<forall>k. i < k \<and> k < high \<longrightarrow> arr ! nat k < pivot))"
  using assms
proof (induction arr pivot i j rule: partition_loop.induct)
  case (1 arr pivot i j)
  note low0 = \<open>0 \<le> low\<close> and hi = \<open>high < int (length arr)\<close>
  note left = \<open>\<forall>k. low \<le> k \<and> k \<le> i \<longrightarrow> arr ! nat k \<le> pivot\<close>
  note right = \<open>\<forall>k. j \<le> k \<and> k \<le> high \<longrightarrow> pivot \<le> arr ! nat k\<close>
  from "1.prems" obtain ku where ku: "i < ku" "ku \<le> high" "pivot \<le> arr ! nat ku" by blast
  from "1.prems" obtain kd where kd: "low \<le> kd" "kd < j" "arr ! nat kd \<le> pivot" by blast
  have "\<exists>i'. scan_up arr pivot (i + 1) = Some (i', [i + 1..i']) \<and> i + 1 \<le> i' \<and> i' \<le> ku \<and>
           pivot \<le> arr ! nat i' \<and> (\<forall>m. i + 1 \<le> m \<and> m < i' \<longrightarrow> arr ! nat m < pivot)"
    using ku "1.prems"(1-3) by (intro scan_up_spec) auto
  then obtain i' where su: "scan_up arr pivot (i + 1) = Some (i', [i + 1..i'])"
    and i': "i + 1 \<le> i'" "i' \<le> ku" "pivot \<le> arr ! nat i'"
    and below: "\<forall>m. i + 1 \<le> m \<and> m < i' \<longrightarrow> arr ! nat m < pivot"
    by blast
  have "\<exists>j'. scan_down arr pivot (j - 1) = Some (j', rev [j'..j - 1]) \<and> kd \<le> j' \<and> j' \<le> j - 1 \<and>
           arr ! nat j' \<le> pivot \<and> (\<forall>m. j' < m \<and> m \<le> j - 1 \<longrightarrow> pivot < arr ! nat m)"
    using kd "1.prems"(1,2,5) by (intro scan_down_spec) auto
  then obtain j' where sd: "scan_down arr pivot (j - 1) = Some (j', rev [j'..j - 1])"
    and j': "kd \<le> j'" "j' \<le> j - 1" "arr ! nat j' \<le> pivot"
    and above: "\<forall>m. j' < m \<and> m \<le> j - 1 \<longrightarrow> pivot < arr ! nat m"
    by blast
  have rd: "\<forall>r \<in> set ([i + 1..i'] @ rev [j'..j - 1]). low \<le> r \<and> r \<le> high"
    using i' j' ku kd "1.prems"(3,5) by auto
  show ?case
  proof (cases "j' \<le> i'")
    case True
    have eq: "partition_loop arr pivot i j = Some (arr, j', [i + 1..i'] @ rev [j'..j - 1])"
      using su sd True by (subst partition_loop.simps) simp
    have l: "\<forall>k. low \<le> k \<and> k \<le> j' \<longrightarrow> arr ! nat k \<le> pivot"
    proof (intro allI impI)
      fix k assume k: "low \<le> k \<and> k \<le> j'"
      consider "k \<le> i" | "i + 1 \<le> k" "k < i'" | "k = i'" using k True by linarith
      then show "arr ! nat k \<le> pivot"
      proof cases
        case 1 then show ?thesis using left k by blast
      next
        case 2 then show ?thesis using below by force
      next
        case 3 then show ?thesis using k True j' by (metis order.antisym)
      qed
    qed
    have r: "\<forall>k. j' < k \<and> k \<le> high \<longrightarrow> pivot \<le> arr ! nat k"
    proof (intro allI impI)
      fix k assume k: "j' < k \<and> k \<le> high"
      show "pivot \<le> arr ! nat k"
      proof (cases "k \<le> j - 1")
        case True then show ?thesis using above k by force
      next
        case False then show ?thesis using right k by force
      qed
    qed
    have e: "j' = high \<longrightarrow> (\<forall>k. i < k \<and> k < high \<longrightarrow> arr ! nat k < pivot)"
      using below True by auto
    show ?thesis
      using eq l r e rd j' kd by (intro exI[of _ arr] exI[of _ j'] exI) auto
  next
    case False
    then have lt: "i' < j'" by simp
    have v: "0 \<le> i'" "i' < int (length arr)" "0 \<le> j'" "j' < int (length arr)"
      using i' j' ku kd low0 hi "1.prems"(3,5) by auto
    define arr' where "arr' = arr[nat i' := arr ! nat j', nat j' := arr ! nat i']"
    have sw: "py_swap arr i' j' = Some arr'"
      using v by (simp add: py_swap_valid arr'_def)
    have len: "length arr' = length arr" by (simp add: arr'_def)
    have ms: "mset arr' = mset arr"
      unfolding arr'_def using v by (simp add: mset_swap)
    have nth': "\<And>k. 0 \<le> k \<Longrightarrow> arr' ! nat k = (if k = j' then arr ! nat i' else if k = i' then arr ! nat j' else arr ! nat k)"
      using v by (auto simp: arr'_def nth_list_update)
    have fr: "\<forall>n. int n < low \<or> high < int n \<longrightarrow> arr' ! n = arr ! n"
      using i' j' ku kd "1.prems"(3,5) low0 by (auto simp: arr'_def nth_list_update)
    have l: "\<forall>k. low \<le> k \<and> k \<le> i' \<longrightarrow> arr' ! nat k \<le> pivot"
    proof (intro allI impI)
      fix k assume k: "low \<le> k \<and> k \<le> i'"
      consider "k \<le> i" | "i + 1 \<le> k" "k < i'" | "k = i'" using k by linarith
      then show "arr' ! nat k \<le> pivot"
      proof cases
        case 1 then show ?thesis using left k lt low0 i' by (simp add: nth')
      next
        case 2 then show ?thesis using below k lt low0 by (simp add: nth' order.strict_implies_order)
      next
        case 3 then show ?thesis using j' lt v by (simp add: nth')
      qed
    qed
    have r: "\<forall>k. j' \<le> k \<and> k \<le> high \<longrightarrow> pivot \<le> arr' ! nat k"
    proof (intro allI impI)
      fix k assume k: "j' \<le> k \<and> k \<le> high"
      consider "j \<le> k" | "j' < k" "k \<le> j - 1" | "k = j'" using k by linarith
      then show "pivot \<le> arr' ! nat k"
      proof cases
        case 1 then show ?thesis using right k lt v j' by (simp add: nth')
      next
        case 2 then show ?thesis using above k lt v by (simp add: nth' order.strict_implies_order)
      next
        case 3 then show ?thesis using i' lt v by (simp add: nth')
      qed
    qed
    have s_up: "\<exists>k. i' < k \<and> k \<le> high \<and> pivot \<le> arr' ! nat k"
      using lt j' "1.prems"(5) i' v by (intro exI[of _ j']) (simp add: nth')
    have s_dn: "\<exists>k. low \<le> k \<and> k < j' \<and> arr' ! nat k \<le> pivot"
      using lt j' i' "1.prems"(3) v by (intro exI[of _ i']) (simp add: nth')
    have "\<exists>arr'' s reads. partition_loop arr' pivot i' j' = Some (arr'', s, reads) \<and>
       length arr'' = length arr' \<and> mset arr'' = mset arr' \<and>
       (\<forall>n. int n < low \<or> high < int n \<longrightarrow> arr'' ! n = arr' ! n) \<and>
       low \<le> s \<and> s < j' \<and>
       (\<forall>k. low \<le> k \<and> k \<le> s \<longrightarrow> arr'' ! nat k \<le> pivot) \<and>
       (\<forall>k. s < k \<and> k \<le> high \<longrightarrow> pivot \<le> arr'' ! nat k) \<and>
       (\<forall>r \<in> set reads. low \<le> r \<and> r \<le> high) \<and>
       (s = high \<longrightarrow> (\<forall>k. i' < k \<and> k < high \<longrightarrow> arr' ! nat k < pivot))"
    proof (rule "1.IH"[OF su refl sd refl _ sw])
      show "\<not> j' \<le> i'" by (rule False)
      show "0 \<le> low" by (rule low0)
      show "high < int (length arr')" using hi len by simp
      show "low - 1 \<le> i'" using i' "1.prems"(3) by simp
      show "i' < j'" by (rule lt)
      show "j' \<le> high + 1" using j' "1.prems"(5) by simp
    qed (use l r s_up s_dn in blast)+
    then obtain arr'' s reads where
      res: "partition_loop arr' pivot i' j' = Some (arr'', s, reads)"
      and p: "length arr'' = length arr'" "mset arr'' = mset arr'"
        "\<forall>n. int n < low \<or> high < int n \<longrightarrow> arr'' ! n = arr' ! n"
        "low \<le> s" "s < j'"
        "\<forall>k. low \<le> k \<and> k \<le> s \<longrightarrow> arr'' ! nat k \<le> pivot"
        "\<forall>k. s < k \<and> k \<le> high \<longrightarrow> pivot \<le> arr'' ! nat k"
        "\<forall>r \<in> set reads. low \<le> r \<and> r \<le> high"
      by blast
    have eq: "partition_loop arr pivot i j =
        Some (arr'', s, [i + 1..i'] @ rev [j'..j - 1] @ reads)"
      using su sd False sw res by (subst partition_loop.simps) simp
    have sh: "s \<noteq> high" using p(5) j' "1.prems"(5) by simp
    have rds: "\<forall>r \<in> set ([i + 1..i'] @ rev [j'..j - 1] @ reads). low \<le> r \<and> r \<le> high"
      using rd p(8) by auto
    show ?thesis
      using eq p(1-7) len ms fr sh rds j'
      by (intro exI[of _ arr''] exI[of _ s] exI[of _ "[i + 1..i'] @ rev [j'..j - 1] @ reads"])
         simp
  qed
qed

subsection \<open>Partitioning a range around a value of the range\<close>

lemma partition_range:
  assumes "0 \<le> low" "low \<le> high" "high < int (length arr)"
    and "\<exists>k. low \<le> k \<and> k \<le> high \<and> arr ! nat k = pivot"
  shows "\<exists>arr' s reads. partition_loop arr pivot (low - 1) (high + 1) = Some (arr', s, reads) \<and>
     length arr' = length arr \<and> mset arr' = mset arr \<and>
     (\<forall>n. int n < low \<or> high < int n \<longrightarrow> arr' ! n = arr ! n) \<and>
     low \<le> s \<and> s \<le> high \<and>
     (\<forall>n. low \<le> int n \<and> int n \<le> s \<longrightarrow> arr' ! n \<le> pivot) \<and>
     (\<forall>n. s < int n \<and> int n \<le> high \<longrightarrow> pivot \<le> arr' ! n) \<and>
     (\<forall>r \<in> set reads. low \<le> r \<and> r \<le> high) \<and>
     (s = high \<longrightarrow> (\<forall>n. low \<le> int n \<and> int n < high \<longrightarrow> arr ! n < pivot))"
proof -
  from assms(4) obtain k where k: "low \<le> k" "k \<le> high" "arr ! nat k = pivot" by blast
  have "\<exists>arr' s reads. partition_loop arr pivot (low - 1) (high + 1) = Some (arr', s, reads) \<and>
     length arr' = length arr \<and> mset arr' = mset arr \<and>
     (\<forall>n. int n < low \<or> high < int n \<longrightarrow> arr' ! n = arr ! n) \<and>
     low \<le> s \<and> s < high + 1 \<and>
     (\<forall>k. low \<le> k \<and> k \<le> s \<longrightarrow> arr' ! nat k \<le> pivot) \<and>
     (\<forall>k. s < k \<and> k \<le> high \<longrightarrow> pivot \<le> arr' ! nat k) \<and>
     (\<forall>r \<in> set reads. low \<le> r \<and> r \<le> high) \<and>
     (s = high \<longrightarrow> (\<forall>k. low - 1 < k \<and> k < high \<longrightarrow> arr ! nat k < pivot))"
  proof (rule partition_loop_spec)
    show "\<exists>k. low - 1 < k \<and> k \<le> high \<and> pivot \<le> arr ! nat k"
      using k by (intro exI[of _ k]) simp
    show "\<exists>k. low \<le> k \<and> k < high + 1 \<and> arr ! nat k \<le> pivot"
      using k by (intro exI[of _ k]) simp
  qed (use assms(1-3) in auto)
  then obtain arr' s reads where
    res: "partition_loop arr pivot (low - 1) (high + 1) = Some (arr', s, reads)"
    and p: "length arr' = length arr" "mset arr' = mset arr"
      "\<forall>n. int n < low \<or> high < int n \<longrightarrow> arr' ! n = arr ! n"
      "low \<le> s" "s < high + 1"
      "\<forall>r \<in> set reads. low \<le> r \<and> r \<le> high"
    and l: "\<forall>k. low \<le> k \<and> k \<le> s \<longrightarrow> arr' ! nat k \<le> pivot"
    and r: "\<forall>k. s < k \<and> k \<le> high \<longrightarrow> pivot \<le> arr' ! nat k"
    and e: "s = high \<longrightarrow> (\<forall>k. low - 1 < k \<and> k < high \<longrightarrow> arr ! nat k < pivot)"
    by blast
  have l': "\<forall>n. low \<le> int n \<and> int n \<le> s \<longrightarrow> arr' ! n \<le> pivot"
    using l by (metis nat_int)
  have r': "\<forall>n. s < int n \<and> int n \<le> high \<longrightarrow> pivot \<le> arr' ! n"
    using r by (metis nat_int)
  have e': "s = high \<longrightarrow> (\<forall>n. low \<le> int n \<and> int n < high \<longrightarrow> arr ! n < pivot)"
  proof (intro impI allI)
    fix n assume "s = high" "low \<le> int n \<and> int n < high"
    then have "arr ! nat (int n) < pivot" using e by (metis add_le_cancel_right diff_add_cancel zle_add1_eq_le)
    then show "arr ! n < pivot" by simp
  qed
  show ?thesis
    using res p l' r' e' by (intro exI[of _ arr'] exI[of _ s] exI[of _ reads]) simp
qed

text \<open>
  What a split index promises (specification predicate, not code): \<open>j\<close> lies in the
  range, everything at \<open>low..j\<close> is at most the pivot, everything at \<open>j+1..high\<close> is at
  least the pivot, and the list holds the elements it held before.
\<close>

definition split_at :: "int list \<Rightarrow> int \<Rightarrow> int \<Rightarrow> int \<Rightarrow> int list \<Rightarrow> int \<Rightarrow> bool" where
  "split_at arr low high pivot arr' j \<longleftrightarrow>
     low \<le> j \<and> j \<le> high \<and>
     (\<forall>n. low \<le> int n \<and> int n \<le> j \<longrightarrow> arr' ! n \<le> pivot) \<and>
     (\<forall>n. j < int n \<and> int n \<le> high \<longrightarrow> pivot \<le> arr' ! n) \<and>
     mset arr' = mset arr"

lemma hoare_partition_range:
  assumes "0 \<le> low" "low \<le> high" "high < int (length arr)"
  shows "\<exists>arr' j. hoare_partition arr low high = Some (arr', j) \<and>
           split_at arr low high (arr ! nat ((low + high) div 2)) arr' j"
proof -
  let ?m = "(low + high) div 2"
  have m: "low \<le> ?m" "?m \<le> high" using assms by auto
  then have g: "py_get arr (drop_bit 1 (low + high)) = Some (arr ! nat ?m)"
    using assms by (simp add: drop_bit_eq_div py_get_valid)
  have "\<exists>k. low \<le> k \<and> k \<le> high \<and> arr ! nat k = arr ! nat ?m"
    using m by blast
  from partition_range[OF assms this] g show ?thesis
    unfolding hoare_partition_def split_at_def by auto
qed

text \<open>
  Claim C5. For a list \<open>arr\<close>, bounds \<open>low < high\<close> within the list and a pivot value
  that occurs in \<open>arr[low..high]\<close>, the partition loop (the loop of
  \<^verbatim>\<open>_hoare_partition\<close>, which \<^verbatim>\<open>_introsort\<close> repeats inline) returns a split index
  \<open>j\<close> with every element at \<open>low..j\<close> at most the pivot, every element at
  \<open>j+1..high\<close> at least the pivot, and the list a permutation of the list before;
  \<^verbatim>\<open>_hoare_partition\<close> itself does so with the middle element as its pivot.
\<close>

theorem hoare_partition_split:
  assumes "0 \<le> low" "low < high" "high < int (length arr)"
    and "\<exists>k. low \<le> k \<and> k \<le> high \<and> arr ! nat k = pivot"
  shows "(\<exists>arr' j reads. partition_loop arr pivot (low - 1) (high + 1) = Some (arr', j, reads) \<and>
            split_at arr low high pivot arr' j) \<and>
         (\<exists>arr' j. hoare_partition arr low high = Some (arr', j) \<and>
            split_at arr low high (arr ! nat ((low + high) div 2)) arr' j)"
proof
  have le: "low \<le> high" using assms(2) by simp
  from partition_range[OF assms(1) le assms(3,4)]
  show "\<exists>arr' j reads. partition_loop arr pivot (low - 1) (high + 1) = Some (arr', j, reads) \<and>
            split_at arr low high pivot arr' j"
    unfolding split_at_def by blast
  from hoare_partition_range[OF assms(1) le assms(3)]
  show "\<exists>arr' j. hoare_partition arr low high = Some (arr', j) \<and>
            split_at arr low high (arr ! nat ((low + high) div 2)) arr' j" .
qed

theorem hoare_partition_split_witness:
  "(\<exists>arr' j reads. partition_loop [3, 1, 2, 5, 4] 2 (0 - 1) (4 + 1) = Some (arr', j, reads) \<and>
      split_at [3, 1, 2, 5, 4] 0 4 2 arr' j) \<and>
   (\<exists>arr' j. hoare_partition [3, 1, 2, 5, 4] 0 4 = Some (arr', j) \<and>
      split_at [3, 1, 2, 5, 4] 0 4 ([3, 1, 2, 5, 4] ! nat ((0 + 4) div 2)) arr' j)"
proof -
  have "\<exists>k::int. 0 \<le> k \<and> k \<le> 4 \<and> [3, 1, 2, 5, 4::int] ! nat k = 2"
    by (intro exI[of _ 2]) simp
  then show ?thesis
    using hoare_partition_split[of 0 4 "[3, 1, 2, 5, 4]" 2] by simp
qed

text \<open>
  Claim C6. While partitioning the range \<open>[low, high]\<close> around a value drawn from
  \<open>arr[low..high]\<close>, every index at which a scan loop reads \<^verbatim>\<open>arr[i]\<close> or
  \<^verbatim>\<open>arr[j]\<close> lies within \<open>[low, high]\<close>: the loop returns (no IndexError), and the
  indices it has read are all in the range.
\<close>

theorem partition_reads_in_range:
  assumes "0 \<le> low" "low < high" "high < int (length arr)"
    and "\<exists>k. low \<le> k \<and> k \<le> high \<and> arr ! nat k = pivot"
  shows "\<exists>arr' j reads. partition_loop arr pivot (low - 1) (high + 1) = Some (arr', j, reads) \<and>
           (\<forall>r \<in> set reads. low \<le> r \<and> r \<le> high)"
proof -
  have le: "low \<le> high" using assms(2) by simp
  from partition_range[OF assms(1) le assms(3,4)] show ?thesis by blast
qed

theorem partition_reads_in_range_witness:
  "\<exists>arr' j. partition_loop [3, 1, 2, 5, 4] 2 (0 - 1) (4 + 1) = Some (arr', j, [0, 4, 3, 2, 1, 2, 1])"
proof -
  have "\<exists>k::int. 0 \<le> k \<and> k \<le> 4 \<and> [3, 1, 2, 5, 4::int] ! nat k = 2"
    by (intro exI[of _ 2]) simp
  then have "\<exists>arr' j reads. partition_loop [3, 1, 2, 5, 4] 2 (0 - 1) (4 + 1) = Some (arr', j, reads) \<and>
           (\<forall>r \<in> set reads. 0 \<le> r \<and> r \<le> 4)"
    using partition_reads_in_range[of 0 4 "[3, 1, 2, 5, 4]" 2] by simp
  moreover have "partition_loop [3, 1, 2, 5, 4] 2 (0 - 1) (4 + 1) = Some ([2, 1, 3, 5, 4], 1, [0, 4, 3, 2, 1, 2, 1])"
    by code_simp
  ultimately show ?thesis by simp
qed

section \<open>Insertion sort of a range\<close>

text \<open>
  \<^verbatim>\<open>_insertion_sort\<close> (lines 109-116). \<open>shift_loop\<close> is the inner loop
  \<^verbatim>\<open>while j >= low and arr[j] > temp: arr[j + 1] = arr[j]; j -= 1\<close>: the test reads
  \<^verbatim>\<open>arr[j]\<close> only when \<open>j \<ge> low\<close>, and the body reads it again. It returns the list and
  the final \<open>j\<close>. \<open>insertion_loop\<close> is the loop over \<^verbatim>\<open>range(low + 1, high + 1)\<close>.
\<close>

function shift_loop :: "int list \<Rightarrow> int \<Rightarrow> int \<Rightarrow> int \<Rightarrow> (int list \<times> int) option" where
  "shift_loop arr low temp j =
     (if j \<ge> low
      then (case py_get arr j of
              None \<Rightarrow> None
            | Some y \<Rightarrow>
                if y > temp
                then (case py_get arr j of
                        None \<Rightarrow> None
                      | Some x \<Rightarrow>
                          (case py_set arr (j + 1) x of
                             None \<Rightarrow> None
                           | Some arr' \<Rightarrow> shift_loop arr' low temp (j - 1)))
                else Some (arr, j))
      else Some (arr, j))"
  by pat_completeness auto
termination
  by (relation "measure (\<lambda>(arr, low, temp, j). nat (j - low + 1))") auto

declare shift_loop.simps [simp del]

function insertion_loop :: "int list \<Rightarrow> int \<Rightarrow> int \<Rightarrow> int \<Rightarrow> int list option" where
  "insertion_loop arr low high i =
     (if i < high + 1
      then do { temp \<leftarrow> py_get arr i;
                (arr1, j) \<leftarrow> shift_loop arr low temp (i - 1);
                arr2 \<leftarrow> py_set arr1 (j + 1) temp;
                insertion_loop arr2 low high (i + 1) }
      else Some arr)"
  by pat_completeness auto
termination
  by (relation "measure (\<lambda>(arr, low, high, i). nat (high + 1 - i))") auto

declare insertion_loop.simps [simp del]

definition insertion_sort :: "int list \<Rightarrow> int \<Rightarrow> int \<Rightarrow> int list option" where
  "insertion_sort arr low high = insertion_loop arr low high (low + 1)"

lemma shift_loop_spec:
  assumes "0 \<le> low" "low - 1 \<le> j" "j + 1 < int (length arr)"
  shows "\<exists>arr' j'. shift_loop arr low temp j = Some (arr', j') \<and> low - 1 \<le> j' \<and> j' \<le> j \<and>
     length arr' = length arr \<and>
     (\<forall>n. int n \<le> j' + 1 \<or> j + 1 < int n \<longrightarrow> arr' ! n = arr ! n) \<and>
     (\<forall>n. j' + 1 \<le> int n \<and> int n \<le> j \<longrightarrow> arr' ! Suc n = arr ! n) \<and>
     (\<forall>n. j' < int n \<and> int n \<le> j \<longrightarrow> temp < arr ! n) \<and>
     (low \<le> j' \<longrightarrow> arr ! nat j' \<le> temp) \<and>
     mset (arr'[nat (j' + 1) := temp]) = mset (arr[nat (j + 1) := temp])"
  using assms
proof (induction arr low temp j rule: shift_loop.induct)
  case (1 arr low temp j)
  show ?case
  proof (cases "low \<le> j \<and> temp < arr ! nat j")
    case False
    then have "shift_loop arr low temp j = Some (arr, j)"
      using "1.prems" by (subst shift_loop.simps) (auto simp: py_get_valid)
    then show ?thesis using False "1.prems" by auto
  next
    case True
    then have lj: "low \<le> j" and gt: "temp < arr ! nat j" by auto
    have vj: "0 \<le> j" "j < int (length arr)" using lj "1.prems" by auto
    have g: "py_get arr j = Some (arr ! nat j)" using vj by (simp add: py_get_valid)
    define arr1 where "arr1 = arr[nat (j + 1) := arr ! nat j]"
    have s: "py_set arr (j + 1) (arr ! nat j) = Some arr1"
      using vj "1.prems" by (simp add: py_set_valid arr1_def)
    have len1: "length arr1 = length arr" by (simp add: arr1_def)
    have "\<exists>arr' j'. shift_loop arr1 low temp (j - 1) = Some (arr', j') \<and> low - 1 \<le> j' \<and> j' \<le> j - 1 \<and>
       length arr' = length arr1 \<and>
       (\<forall>n. int n \<le> j' + 1 \<or> j - 1 + 1 < int n \<longrightarrow> arr' ! n = arr1 ! n) \<and>
       (\<forall>n. j' + 1 \<le> int n \<and> int n \<le> j - 1 \<longrightarrow> arr' ! Suc n = arr1 ! n) \<and>
       (\<forall>n. j' < int n \<and> int n \<le> j - 1 \<longrightarrow> temp < arr1 ! n) \<and>
       (low \<le> j' \<longrightarrow> arr1 ! nat j' \<le> temp) \<and>
       mset (arr'[nat (j' + 1) := temp]) = mset (arr1[nat (j - 1 + 1) := temp])"
      using lj gt g s "1.prems" len1 by (intro "1.IH"[of "arr ! nat j" "arr ! nat j" arr1]) auto
    then obtain arr' j' where
      res: "shift_loop arr1 low temp (j - 1) = Some (arr', j')"
      and b: "low - 1 \<le> j'" "j' \<le> j - 1" "length arr' = length arr1"
      and un: "\<forall>n. int n \<le> j' + 1 \<or> j < int n \<longrightarrow> arr' ! n = arr1 ! n"
      and sh: "\<forall>n. j' + 1 \<le> int n \<and> int n \<le> j - 1 \<longrightarrow> arr' ! Suc n = arr1 ! n"
      and gr: "\<forall>n. j' < int n \<and> int n \<le> j - 1 \<longrightarrow> temp < arr1 ! n"
      and ex: "low \<le> j' \<longrightarrow> arr1 ! nat j' \<le> temp"
      and ms: "mset (arr'[nat (j' + 1) := temp]) = mset (arr1[nat j := temp])"
      by auto
    have eq: "shift_loop arr low temp j = Some (arr', j')"
      using lj gt g s res by (subst shift_loop.simps) simp
    have nth1: "\<And>n. arr1 ! n = (if n = nat (j + 1) then arr ! nat j else arr ! n)"
      using vj "1.prems" by (auto simp: arr1_def nth_list_update)
    have un': "\<forall>n. int n \<le> j' + 1 \<or> j + 1 < int n \<longrightarrow> arr' ! n = arr ! n"
    proof (intro allI impI)
      fix n assume n: "int n \<le> j' + 1 \<or> j + 1 < int n"
      then have "arr' ! n = arr1 ! n" using un b by auto
      moreover have "n \<noteq> nat (j + 1)" using n b vj by linarith
      ultimately show "arr' ! n = arr ! n" by (simp add: nth1)
    qed
    have sh': "\<forall>n. j' + 1 \<le> int n \<and> int n \<le> j \<longrightarrow> arr' ! Suc n = arr ! n"
    proof (intro allI impI)
      fix n assume n: "j' + 1 \<le> int n \<and> int n \<le> j"
      show "arr' ! Suc n = arr ! n"
      proof (cases "int n = j")
        case True
        then have "arr' ! Suc n = arr1 ! Suc n" using un by simp
        also have "\<dots> = arr ! nat j"
        proof -
          have "Suc n = nat (j + 1)" using True by linarith
          then show ?thesis by (simp add: nth1)
        qed
        finally show ?thesis using True by (metis nat_int)
      next
        case False
        then have "arr' ! Suc n = arr1 ! n" using sh n by simp
        moreover have "n \<noteq> nat (j + 1)" using n vj by linarith
        ultimately show ?thesis by (simp add: nth1)
      qed
    qed
    have gr': "\<forall>n. j' < int n \<and> int n \<le> j \<longrightarrow> temp < arr ! n"
    proof (intro allI impI)
      fix n assume n: "j' < int n \<and> int n \<le> j"
      show "temp < arr ! n"
      proof (cases "int n = j")
        case True then show ?thesis using gt by (metis nat_int)
      next
        case False
        then have "temp < arr1 ! n" using gr n by simp
        moreover have "n \<noteq> nat (j + 1)" using n vj by linarith
        ultimately show ?thesis by (simp add: nth1)
      qed
    qed
    have "nat j' \<noteq> nat (j + 1)" using b vj by linarith
    then have ex': "low \<le> j' \<longrightarrow> arr ! nat j' \<le> temp"
      using ex by (simp add: nth1)
    have "arr1[nat j := temp] = (arr[nat (j + 1) := temp])[nat (j + 1) := (arr[nat (j + 1) := temp]) ! nat j, nat j := (arr[nat (j + 1) := temp]) ! nat (j + 1)]"
      using vj "1.prems" by (simp add: arr1_def nat_add_distrib)
    moreover have "mset ((arr[nat (j + 1) := temp])[nat (j + 1) := (arr[nat (j + 1) := temp]) ! nat j, nat j := (arr[nat (j + 1) := temp]) ! nat (j + 1)]) = mset (arr[nat (j + 1) := temp])"
      using vj "1.prems" by (intro mset_swap) auto
    ultimately have ms': "mset (arr'[nat (j' + 1) := temp]) = mset (arr[nat (j + 1) := temp])"
      using ms by simp
    show ?thesis
      using eq b len1 un' sh' gr' ex' ms'
      by (intro exI[of _ arr'] exI[of _ j']) simp
  qed
qed

text \<open>
  What sorting the range \<open>[low, high]\<close> of a list in place means (specification predicate,
  not code): same length, same elements, nothing changed outside the range, and the
  range in non-decreasing order.
\<close>

definition sorts_range :: "int list \<Rightarrow> int \<Rightarrow> int \<Rightarrow> int list \<Rightarrow> bool" where
  "sorts_range arr low high arr' \<longleftrightarrow>
     length arr' = length arr \<and> mset arr' = mset arr \<and>
     (\<forall>n. int n < low \<or> high < int n \<longrightarrow> arr' ! n = arr ! n) \<and>
     (\<forall>a b. low \<le> int a \<and> a \<le> b \<and> int b \<le> high \<longrightarrow> arr' ! a \<le> arr' ! b)"

lemma insertion_loop_spec:
  assumes "0 \<le> low" "low < i" "i \<le> high + 1" "high < int (length arr)"
    and "\<forall>a b. low \<le> int a \<and> a \<le> b \<and> int b < i \<longrightarrow> arr ! a \<le> arr ! b"
  shows "\<exists>arr'. insertion_loop arr low high i = Some arr' \<and> sorts_range arr low high arr'"
  using assms
proof (induction arr low high i rule: insertion_loop.induct)
  case (1 arr low high i)
  note srt = \<open>\<forall>a b. low \<le> int a \<and> a \<le> b \<and> int b < i \<longrightarrow> arr ! a \<le> arr ! b\<close>
  show ?case
  proof (cases "i < high + 1")
    case False
    then have "insertion_loop arr low high i = Some arr"
      by (subst insertion_loop.simps) simp
    moreover have "i = high + 1" using False "1.prems" by simp
    ultimately show ?thesis using srt by (auto simp: sorts_range_def)
  next
    case True
    define temp where "temp = arr ! nat i"
    have vi: "0 \<le> i" "i < int (length arr)" using True "1.prems" by auto
    have g: "py_get arr i = Some temp" using vi by (simp add: py_get_valid temp_def)
    have "\<exists>arr1 j'. shift_loop arr low temp (i - 1) = Some (arr1, j') \<and> low - 1 \<le> j' \<and> j' \<le> i - 1 \<and>
       length arr1 = length arr \<and>
       (\<forall>n. int n \<le> j' + 1 \<or> i - 1 + 1 < int n \<longrightarrow> arr1 ! n = arr ! n) \<and>
       (\<forall>n. j' + 1 \<le> int n \<and> int n \<le> i - 1 \<longrightarrow> arr1 ! Suc n = arr ! n) \<and>
       (\<forall>n. j' < int n \<and> int n \<le> i - 1 \<longrightarrow> temp < arr ! n) \<and>
       (low \<le> j' \<longrightarrow> arr ! nat j' \<le> temp) \<and>
       mset (arr1[nat (j' + 1) := temp]) = mset (arr[nat (i - 1 + 1) := temp])"
      using "1.prems" vi by (intro shift_loop_spec) auto
    then obtain arr1 j' where
      res: "shift_loop arr low temp (i - 1) = Some (arr1, j')"
      and b: "low - 1 \<le> j'" "j' \<le> i - 1" "length arr1 = length arr"
      and un: "\<forall>n. int n \<le> j' + 1 \<or> i < int n \<longrightarrow> arr1 ! n = arr ! n"
      and sh: "\<forall>n. j' + 1 \<le> int n \<and> int n \<le> i - 1 \<longrightarrow> arr1 ! Suc n = arr ! n"
      and gr: "\<forall>n. j' < int n \<and> int n \<le> i - 1 \<longrightarrow> temp < arr ! n"
      and ex: "low \<le> j' \<longrightarrow> arr ! nat j' \<le> temp"
      and ms: "mset (arr1[nat (j' + 1) := temp]) = mset (arr[nat i := temp])"
      by auto
    define arr2 where "arr2 = arr1[nat (j' + 1) := temp]"
    have vj: "0 \<le> j' + 1" "j' + 1 < int (length arr1)" using b vi "1.prems" by auto
    have s: "py_set arr1 (j' + 1) temp = Some arr2"
      using vj by (simp add: py_set_valid arr2_def)
    have len2: "length arr2 = length arr" using b by (simp add: arr2_def)
    have ms2: "mset arr2 = mset arr"
      using ms by (simp add: arr2_def temp_def)
    have at_hole: "arr2 ! nat (j' + 1) = temp"
      using vj by (simp add: arr2_def)
    have below: "\<And>n. int n \<le> j' \<Longrightarrow> arr2 ! n = arr ! n"
    proof -
      fix n assume n: "int n \<le> j'"
      then have "n \<noteq> nat (j' + 1)" by linarith
      then show "arr2 ! n = arr ! n" using un n by (simp add: arr2_def)
    qed
    have shifted: "\<And>n. j' + 1 \<le> int n \<Longrightarrow> int n \<le> i - 1 \<Longrightarrow> arr2 ! Suc n = arr ! n"
    proof -
      fix n assume n: "j' + 1 \<le> int n" "int n \<le> i - 1"
      then have "Suc n \<noteq> nat (j' + 1)" by linarith
      then show "arr2 ! Suc n = arr ! n" using sh n by (simp add: arr2_def)
    qed
    have beyond: "\<And>n. i < int n \<Longrightarrow> arr2 ! n = arr ! n"
    proof -
      fix n assume n: "i < int n"
      then have "n \<noteq> nat (j' + 1)" using b vj by linarith
      then show "arr2 ! n = arr ! n" using un n by (simp add: arr2_def)
    qed
    have fr2: "\<forall>n. int n < low \<or> high < int n \<longrightarrow> arr2 ! n = arr ! n"
      using below beyond b True by (metis add_le_cancel_right diff_add_cancel dual_order.strict_trans1 not_less zle_add1_eq_le order.trans)
    have srt2: "\<forall>a c. low \<le> int a \<and> a \<le> c \<and> int c < i + 1 \<longrightarrow> arr2 ! a \<le> arr2 ! c"
    proof (intro allI impI)
      fix a c assume h: "low \<le> int a \<and> a \<le> c \<and> int c < i + 1"
      have val: "\<And>n. low \<le> int n \<Longrightarrow> int n \<le> i \<Longrightarrow>
          (int n \<le> j' \<and> arr2 ! n = arr ! n) \<or> (int n = j' + 1 \<and> arr2 ! n = temp) \<or>
          (j' + 2 \<le> int n \<and> arr2 ! n = arr ! (n - 1))"
      proof -
        fix n assume n: "low \<le> int n" "int n \<le> i"
        consider "int n \<le> j'" | "int n = j' + 1" | "j' + 2 \<le> int n" by linarith
        then show "(int n \<le> j' \<and> arr2 ! n = arr ! n) \<or> (int n = j' + 1 \<and> arr2 ! n = temp) \<or>
          (j' + 2 \<le> int n \<and> arr2 ! n = arr ! (n - 1))"
        proof cases
          case 1 then show ?thesis using below by simp
        next
          case 2
          then have "n = nat (j' + 1)" by linarith
          then show ?thesis using at_hole 2 by simp
        next
          case 3
          then obtain m where m: "n = Suc m" using vj by (cases n) auto
          then have "arr2 ! Suc m = arr ! m" using 3 n by (intro shifted) auto
          then show ?thesis using 3 m by simp
        qed
      qed
      have va: "(int a \<le> j' \<and> arr2 ! a = arr ! a) \<or> (int a = j' + 1 \<and> arr2 ! a = temp) \<or>
          (j' + 2 \<le> int a \<and> arr2 ! a = arr ! (a - 1))" using h by (intro val) auto
      have vc: "(int c \<le> j' \<and> arr2 ! c = arr ! c) \<or> (int c = j' + 1 \<and> arr2 ! c = temp) \<or>
          (j' + 2 \<le> int c \<and> arr2 ! c = arr ! (c - 1))" using h by (intro val) auto
      have exj: "int a \<le> j' \<Longrightarrow> arr ! a \<le> temp"
      proof -
        assume a: "int a \<le> j'"
        then have "arr ! a \<le> arr ! nat j'" using srt h b by (intro srt[rule_format]) auto
        moreover have "arr ! nat j' \<le> temp" using ex a h by auto
        ultimately show "arr ! a \<le> temp" by simp
      qed
      have pos: "\<And>n. j' + 2 \<le> int n \<Longrightarrow> int (n - 1) = int n - 1"
      proof -
        fix n assume "j' + 2 \<le> int n"
        then show "int (n - 1) = int n - 1" using vj by (cases n) auto
      qed
      have grc: "j' + 2 \<le> int c \<Longrightarrow> temp < arr ! (c - 1)"
        using h pos[of c] by (intro gr[rule_format]) auto
      from va vc show "arr2 ! a \<le> arr2 ! c"
      proof (elim disjE conjE)
        assume "int a \<le> j'" "arr2 ! a = arr ! a" "int c \<le> j'" "arr2 ! c = arr ! c"
        then show ?thesis using srt h b by auto
      next
        assume "int a \<le> j'" "arr2 ! a = arr ! a" "int c = j' + 1" "arr2 ! c = temp"
        then show ?thesis using exj by simp
      next
        assume a: "int a \<le> j'" "arr2 ! a = arr ! a" "j' + 2 \<le> int c" "arr2 ! c = arr ! (c - 1)"
        then have "arr ! a \<le> arr ! (c - 1)" using h pos[of c] by (intro srt[rule_format]) auto
        then show ?thesis using a by simp
      next
        assume "int a = j' + 1" "arr2 ! a = temp" "int c \<le> j'" "arr2 ! c = arr ! c"
        then show ?thesis using h by auto
      next
        assume "int a = j' + 1" "arr2 ! a = temp" "int c = j' + 1" "arr2 ! c = temp"
        then show ?thesis by simp
      next
        assume "int a = j' + 1" "arr2 ! a = temp" "j' + 2 \<le> int c" "arr2 ! c = arr ! (c - 1)"
        then show ?thesis using grc by simp
      next
        assume "j' + 2 \<le> int a" "arr2 ! a = arr ! (a - 1)" "int c \<le> j'" "arr2 ! c = arr ! c"
        then show ?thesis using h by auto
      next
        assume "j' + 2 \<le> int a" "arr2 ! a = arr ! (a - 1)" "int c = j' + 1" "arr2 ! c = temp"
        then show ?thesis using h by auto
      next
        assume a: "j' + 2 \<le> int a" "arr2 ! a = arr ! (a - 1)" "j' + 2 \<le> int c" "arr2 ! c = arr ! (c - 1)"
        then have "arr ! (a - 1) \<le> arr ! (c - 1)" using h b pos[of c] pos[of a] by (intro srt[rule_format]) auto
        then show ?thesis using a by simp
      qed
    qed
    have "\<exists>arr'. insertion_loop arr2 low high (i + 1) = Some arr' \<and> sorts_range arr2 low high arr'"
      using True g res s "1.prems" len2 srt2
      by (intro "1.IH"[of temp "(arr1, j')" arr1 j' arr2]) auto
    then obtain arr' where r: "insertion_loop arr2 low high (i + 1) = Some arr'"
      and sr: "sorts_range arr2 low high arr'" by blast
    have eq: "insertion_loop arr low high i = Some arr'"
      using True g res s r by (subst insertion_loop.simps) simp
    have "sorts_range arr low high arr'"
      using sr len2 ms2 fr2 by (simp add: sorts_range_def)
    with eq show ?thesis by blast
  qed
qed

lemma insertion_sort_sorts:
  assumes "0 \<le> low" "low \<le> high" "high < int (length arr)"
  shows "\<exists>arr'. insertion_sort arr low high = Some arr' \<and> sorts_range arr low high arr'"
  unfolding insertion_sort_def
proof (rule insertion_loop_spec)
  show "\<forall>a b. low \<le> int a \<and> a \<le> b \<and> int b < low + 1 \<longrightarrow> arr ! a \<le> arr ! b"
  proof (intro allI impI)
    fix a b assume "low \<le> int a \<and> a \<le> b \<and> int b < low + 1"
    then have "a = b" by linarith
    then show "arr ! a \<le> arr ! b" by simp
  qed
qed (use assms in auto)

section \<open>Heap sort of a range\<close>

text \<open>
  \<^verbatim>\<open>_heapsort_partial\<close> (lines 150-170). \<open>larger_child\<close> is one of the two tests
  \<^verbatim>\<open>if child < n and arr[l + child] > arr[l + largest]: largest = child\<close> of the inner
  function \<^verbatim>\<open>sift\<close>, which reads the list only when \<open>child < n\<close>; \<open>sift\<close> is its
  \<^verbatim>\<open>while True\<close> loop, with \<^verbatim>\<open>(i << 1) + 1\<close> as \<open>push_bit 1 i + 1\<close>. \<open>heapify_loop\<close> is
  the loop over \<^verbatim>\<open>range((n >> 1) - 1, -1, -1)\<close> and \<open>extract_loop\<close> the loop over
  \<^verbatim>\<open>range(n - 1, 0, -1)\<close>.
\<close>

definition larger_child :: "int list \<Rightarrow> int \<Rightarrow> int \<Rightarrow> int \<Rightarrow> int \<Rightarrow> int option" where
  "larger_child arr l n child largest =
     (if child < n
      then do { x \<leftarrow> py_get arr (l + child); y \<leftarrow> py_get arr (l + largest);
                Some (if x > y then child else largest) }
      else Some largest)"

partial_function (option) sift :: "int list \<Rightarrow> int \<Rightarrow> int \<Rightarrow> int \<Rightarrow> int list option" where
  "sift arr l n i =
     do { let largest = i;
          let left = push_bit 1 i + 1;
          let right = left + 1;
          largest \<leftarrow> larger_child arr l n left largest;
          largest \<leftarrow> larger_child arr l n right largest;
          if largest = i then Some arr
          else do { arr' \<leftarrow> py_swap arr (l + i) (l + largest);
                    sift arr' l n largest } }"

declare sift.simps [code]

function heapify_loop :: "int list \<Rightarrow> int \<Rightarrow> int \<Rightarrow> int \<Rightarrow> int list option" where
  "heapify_loop arr low n i =
     (if i > -1
      then do { arr' \<leftarrow> sift arr low n i; heapify_loop arr' low n (i - 1) }
      else Some arr)"
  by pat_completeness auto
termination
  by (relation "measure (\<lambda>(arr, low, n, i). nat (i + 1))") auto

declare heapify_loop.simps [simp del]

function extract_loop :: "int list \<Rightarrow> int \<Rightarrow> int \<Rightarrow> int list option" where
  "extract_loop arr low end =
     (if end > 0
      then do { arr1 \<leftarrow> py_swap arr low (low + end);
                arr2 \<leftarrow> sift arr1 low end 0;
                extract_loop arr2 low (end - 1) }
      else Some arr)"
  by pat_completeness auto
termination
  by (relation "measure (\<lambda>(arr, low, end). nat end)") auto

declare extract_loop.simps [simp del]

definition heapsort_partial :: "int list \<Rightarrow> int \<Rightarrow> int \<Rightarrow> int list option" where
  "heapsort_partial arr low high =
     do { let n = high - low + 1;
          arr1 \<leftarrow> heapify_loop arr low n (drop_bit 1 n - 1);
          extract_loop arr1 low (n - 1) }"

subsection \<open>Heap invariants\<close>

text \<open>
  Predicates of the proof, not code. \<open>el arr l k\<close> is the element at offset \<open>k\<close> of the
  range that starts at \<open>l\<close>; \<open>edge_ok\<close> says a node is at least its children;
  \<open>heap_from arr l n s\<close> that every node from \<open>s\<close> on is; \<open>sift_pre\<close> is the state in
  which only node \<open>i\<close> may be smaller than its children; \<open>largest_of\<close> is the index the
  two tests of \<open>sift\<close> select.
\<close>

definition el :: "int list \<Rightarrow> int \<Rightarrow> int \<Rightarrow> int" where
  "el arr l k = arr ! nat (l + k)"

definition edge_ok :: "int list \<Rightarrow> int \<Rightarrow> int \<Rightarrow> int \<Rightarrow> bool" where
  "edge_ok arr l n p \<longleftrightarrow>
     (2 * p + 1 < n \<longrightarrow> el arr l (2 * p + 1) \<le> el arr l p) \<and>
     (2 * p + 2 < n \<longrightarrow> el arr l (2 * p + 2) \<le> el arr l p)"

definition heap_from :: "int list \<Rightarrow> int \<Rightarrow> int \<Rightarrow> int \<Rightarrow> bool" where
  "heap_from arr l n s \<longleftrightarrow> (\<forall>p. s \<le> p \<longrightarrow> edge_ok arr l n p)"

definition sift_pre :: "int list \<Rightarrow> int \<Rightarrow> int \<Rightarrow> int \<Rightarrow> int \<Rightarrow> bool" where
  "sift_pre arr l n s i \<longleftrightarrow>
     (\<forall>p. s \<le> p \<and> p \<noteq> i \<longrightarrow> edge_ok arr l n p) \<and>
     (\<forall>q. s \<le> q \<and> (i = 2 * q + 1 \<or> i = 2 * q + 2) \<longrightarrow>
        (2 * i + 1 < n \<longrightarrow> el arr l (2 * i + 1) \<le> el arr l q) \<and>
        (2 * i + 2 < n \<longrightarrow> el arr l (2 * i + 2) \<le> el arr l q))"

definition largest_of :: "int list \<Rightarrow> int \<Rightarrow> int \<Rightarrow> int \<Rightarrow> int" where
  "largest_of arr l n i =
     (let m = (if 2 * i + 1 < n \<and> el arr l (2 * i + 1) > el arr l i then 2 * i + 1 else i)
      in if 2 * i + 2 < n \<and> el arr l (2 * i + 2) > el arr l m then 2 * i + 2 else m)"

lemma larger_child_valid:
  assumes "0 \<le> l" "l + n \<le> int (length arr)" "0 \<le> i" "0 \<le> m" "child < n \<longrightarrow> m < n" "0 \<le> child"
  shows "larger_child arr l n child m =
           Some (if child < n \<and> el arr l child > el arr l m then child else m)"
  using assms by (auto simp: larger_child_def py_get_valid el_def)

lemma largest_of_cases:
  "largest_of arr l n i = i \<or>
   (largest_of arr l n i = 2 * i + 1 \<and> 2 * i + 1 < n) \<or>
   (largest_of arr l n i = 2 * i + 2 \<and> 2 * i + 2 < n)"
  by (auto simp: largest_of_def Let_def)

lemma sift_unfold:
  assumes "0 \<le> l" "l + n \<le> int (length arr)" "0 \<le> i"
  shows "sift arr l n i =
     (if largest_of arr l n i = i then Some arr
      else sift (arr[nat (l + i) := el arr l (largest_of arr l n i),
                     nat (l + largest_of arr l n i) := el arr l i]) l n (largest_of arr l n i))"
proof -
  define m1 where "m1 = (if 2 * i + 1 < n \<and> el arr l (2 * i + 1) > el arr l i then 2 * i + 1 else i)"
  have c1: "larger_child arr l n (2 * i + 1) i = Some m1"
    unfolding m1_def using assms by (intro larger_child_valid) auto
  have m1n: "2 * i + 2 < n \<longrightarrow> m1 < n" "0 \<le> m1" using assms by (auto simp: m1_def)
  have c2: "larger_child arr l n (2 * i + 1 + 1) m1 =
      Some (if 2 * i + 1 + 1 < n \<and> el arr l (2 * i + 1 + 1) > el arr l m1 then 2 * i + 1 + 1 else m1)"
    using assms m1n by (intro larger_child_valid) auto
  have lo: "largest_of arr l n i = (if 2 * i + 2 < n \<and> el arr l (2 * i + 2) > el arr l m1 then 2 * i + 2 else m1)"
    by (simp add: largest_of_def m1_def Let_def)
  have c2': "larger_child arr l n (2 * i + 1 + 1) m1 = Some (largest_of arr l n i)"
    using c2 lo by (simp add: add.assoc)
  show ?thesis
  proof (cases "largest_of arr l n i = i")
    case True
    then show ?thesis
      using c1 c2' by (subst sift.simps) (simp add: push_bit_eq_mult mult.commute)
  next
    case False
    then have "0 \<le> largest_of arr l n i" "largest_of arr l n i < n" "i < n"
      using largest_of_cases[of arr l n i] assms by auto
    then have "py_swap arr (l + i) (l + largest_of arr l n i) =
       Some (arr[nat (l + i) := el arr l (largest_of arr l n i),
                     nat (l + largest_of arr l n i) := el arr l i])"
      using assms by (simp add: py_swap_valid el_def)
    then show ?thesis
      using c1 c2' False by (subst sift.simps) (simp add: push_bit_eq_mult mult.commute)
  qed
qed

lemma largest_of_props:
  assumes "0 \<le> i"
  shows "(largest_of arr l n i \<noteq> i \<longrightarrow>
            el arr l i < el arr l (largest_of arr l n i) \<and>
            (largest_of arr l n i = 2 * i + 1 \<or> largest_of arr l n i = 2 * i + 2) \<and>
            largest_of arr l n i < n) \<and>
         (2 * i + 1 < n \<longrightarrow> el arr l (2 * i + 1) \<le> el arr l (largest_of arr l n i)) \<and>
         (2 * i + 2 < n \<longrightarrow> el arr l (2 * i + 2) \<le> el arr l (largest_of arr l n i))"
  using assms by (auto simp: largest_of_def Let_def)

lemma sift_done:
  assumes "0 \<le> i" "sift_pre arr l n s i" "largest_of arr l n i = i"
  shows "heap_from arr l n s"
proof -
  have "edge_ok arr l n i"
    using largest_of_props[OF assms(1), of arr l n] assms(3) by (simp add: edge_ok_def)
  then show ?thesis
    using assms(2) by (auto simp: heap_from_def sift_pre_def)
qed

lemma el_swap:
  assumes "0 \<le> l" "0 \<le> i" "0 \<le> m" "l + i < int (length arr)" "l + m < int (length arr)" "0 \<le> k"
  shows "el (arr[nat (l + i) := x, nat (l + m) := y]) l k =
           (if k = m then y else if k = i then x else el arr l k)"
proof -
  have len: "nat (l + i) < length arr" "nat (l + m) < length arr" using assms by auto
  consider "k = m" | "k \<noteq> m" "k = i" | "k \<noteq> m" "k \<noteq> i" by blast
  then show ?thesis
  proof cases
    case 1
    then show ?thesis using len by (simp add: el_def)
  next
    case 2
    then have "nat (l + i) \<noteq> nat (l + m)" using assms by auto
    then show ?thesis using 2 len by (simp add: el_def)
  next
    case 3
    then have "nat (l + k) \<noteq> nat (l + m)" "nat (l + k) \<noteq> nat (l + i)" using assms by auto
    then show ?thesis using 3 by (simp add: el_def)
  qed
qed

lemma sift_step_pre:
  assumes v: "0 \<le> l" "l + n \<le> int (length arr)" "0 \<le> s" "s \<le> i"
    and pre: "sift_pre arr l n s i"
    and m: "m = largest_of arr l n i" "m \<noteq> i"
    and arr': "arr' = arr[nat (l + i) := el arr l m, nat (l + m) := el arr l i]"
  shows "sift_pre arr' l n s m"
proof -
  have i0: "0 \<le> i" using v by simp
  from largest_of_props[OF i0, of arr l n] m
  have gt: "el arr l i < el arr l m" and ch: "m = 2 * i + 1 \<or> m = 2 * i + 2" and mn: "m < n"
    and c1: "2 * i + 1 < n \<longrightarrow> el arr l (2 * i + 1) \<le> el arr l m"
    and c2: "2 * i + 2 < n \<longrightarrow> el arr l (2 * i + 2) \<le> el arr l m"
    by auto
  have m0: "0 \<le> m" "i < m" using ch i0 by auto
  have el': "\<And>k. 0 \<le> k \<Longrightarrow> el arr' l k = (if k = m then el arr l i else if k = i then el arr l m else el arr l k)"
    unfolding arr' using v i0 m0 mn by (intro el_swap) auto
  from pre have pre1: "\<And>p. s \<le> p \<Longrightarrow> p \<noteq> i \<Longrightarrow> edge_ok arr l n p"
    and pre2: "\<And>q. s \<le> q \<Longrightarrow> i = 2 * q + 1 \<or> i = 2 * q + 2 \<Longrightarrow>
        (2 * i + 1 < n \<longrightarrow> el arr l (2 * i + 1) \<le> el arr l q) \<and>
        (2 * i + 2 < n \<longrightarrow> el arr l (2 * i + 2) \<le> el arr l q)"
    by (auto simp: sift_pre_def)
  have child: "\<And>p c. s \<le> p \<Longrightarrow> p \<noteq> m \<Longrightarrow> c = 2 * p + 1 \<or> c = 2 * p + 2 \<Longrightarrow> c < n \<Longrightarrow>
      el arr' l c \<le> el arr' l p"
  proof -
    fix p c assume p: "s \<le> p" "p \<noteq> m" and c: "c = 2 * p + 1 \<or> c = 2 * p + 2" "c < n"
    have p0: "0 \<le> p" "0 \<le> c" using p v c by auto
    show "el arr' l c \<le> el arr' l p"
    proof (cases "p = i")
      case True
      show ?thesis
      proof (cases "c = m")
        case True
        then show ?thesis using \<open>p = i\<close> gt m0 i0 by (simp add: el')
      next
        case False
        moreover have "c \<noteq> i" using c True i0 by auto
        ultimately have "el arr' l c = el arr l c" using p0 by (simp add: el')
        moreover have "el arr' l p = el arr l m" using True i0 m0 by (simp add: el')
        moreover have "el arr l c \<le> el arr l m" using c True c1 c2 by auto
        ultimately show ?thesis by simp
      qed
    next
      case False
      have e: "edge_ok arr l n p" using pre1 p False by simp
      have pp: "el arr' l p = el arr l p" using False p p0 by (simp add: el')
      have cm: "c \<noteq> m" using c ch False by auto
      show ?thesis
      proof (cases "c = i")
        case True
        then have "el arr' l c = el arr l m" using i0 m0 by (simp add: el')
        moreover have "el arr l m \<le> el arr l p"
          using pre2[of p] p True c ch mn by auto
        ultimately show ?thesis using pp by simp
      next
        case False
        then have "el arr' l c = el arr l c" using cm p0 by (simp add: el')
        moreover have "el arr l c \<le> el arr l p" using e c by (auto simp: edge_ok_def)
        ultimately show ?thesis using pp by simp
      qed
    qed
  qed
  have grand: "\<And>q c. s \<le> q \<Longrightarrow> m = 2 * q + 1 \<or> m = 2 * q + 2 \<Longrightarrow>
      c = 2 * m + 1 \<or> c = 2 * m + 2 \<Longrightarrow> c < n \<Longrightarrow> el arr' l c \<le> el arr' l q"
  proof -
    fix q c assume q: "s \<le> q" "m = 2 * q + 1 \<or> m = 2 * q + 2"
      and c: "c = 2 * m + 1 \<or> c = 2 * m + 2" "c < n"
    have qi: "q = i" using q ch by auto
    have c0: "0 \<le> c" "c \<noteq> m" "c \<noteq> i" using c m0 i0 by auto
    have "edge_ok arr l n m" using pre1[of m] m0 v by simp
    then have "el arr l c \<le> el arr l m" using c by (auto simp: edge_ok_def)
    moreover have "el arr' l c = el arr l c" using c0 by (simp add: el')
    moreover have "el arr' l q = el arr l m" using qi i0 m0 by (simp add: el')
    ultimately show "el arr' l c \<le> el arr' l q" by simp
  qed
  show ?thesis
    unfolding sift_pre_def edge_ok_def
    using child grand by (intro conjI allI impI) blast+
qed

lemma sift_spec:
  assumes "0 \<le> l" "l + n \<le> int (length arr)" "0 \<le> s" "s \<le> i" "sift_pre arr l n s i"
  shows "\<exists>arr'. sift arr l n i = Some arr' \<and> length arr' = length arr \<and> mset arr' = mset arr \<and>
           (\<forall>k. int k < l + i \<or> l + n \<le> int k \<longrightarrow> arr' ! k = arr ! k) \<and>
           heap_from arr' l n s"
  using assms
proof (induction "nat (n - i)" arbitrary: arr i rule: less_induct)
  case less
  have i0: "0 \<le> i" using less.prems by simp
  define m where "m = largest_of arr l n i"
  have unf: "sift arr l n i =
     (if m = i then Some arr
      else sift (arr[nat (l + i) := el arr l m, nat (l + m) := el arr l i]) l n m)"
    unfolding m_def using less.prems(1,2) i0 by (rule sift_unfold)
  show ?case
  proof (cases "m = i")
    case True
    then have "heap_from arr l n s"
      using sift_done[OF i0 less.prems(5)] by (simp add: m_def)
    then show ?thesis using unf True by simp
  next
    case False
    define arr1 where "arr1 = arr[nat (l + i) := el arr l m, nat (l + m) := el arr l i]"
    from largest_of_props[OF i0, of arr l n] False
    have ch: "m = 2 * i + 1 \<or> m = 2 * i + 2" and mn: "m < n" by (auto simp: m_def)
    have im: "i < m" using ch i0 by auto
    have vi: "nat (l + i) < length arr" "nat (l + m) < length arr" "nat (l + i) \<noteq> nat (l + m)"
      using less.prems(1,2) i0 im mn by auto
    have len1: "length arr1 = length arr" by (simp add: arr1_def)
    have ms1: "mset arr1 = mset arr"
      unfolding arr1_def el_def using vi by (simp add: mset_swap)
    have pre1: "sift_pre arr1 l n s m"
      by (rule sift_step_pre[OF less.prems(1,2,3,4,5) m_def False arr1_def])
    have "\<exists>arr'. sift arr1 l n m = Some arr' \<and> length arr' = length arr1 \<and> mset arr' = mset arr1 \<and>
           (\<forall>k. int k < l + m \<or> l + n \<le> int k \<longrightarrow> arr' ! k = arr1 ! k) \<and>
           heap_from arr' l n s"
    proof (rule less.hyps)
      show "nat (n - m) < nat (n - i)" using im mn by simp
      show "l + n \<le> int (length arr1)" using less.prems len1 by simp
      show "s \<le> m" using less.prems im by simp
    qed (use less.prems pre1 in auto)
    then obtain arr' where r: "sift arr1 l n m = Some arr'"
      and p: "length arr' = length arr1" "mset arr' = mset arr1" "heap_from arr' l n s"
      and fr: "\<forall>k. int k < l + m \<or> l + n \<le> int k \<longrightarrow> arr' ! k = arr1 ! k"
      by blast
    have fr': "\<forall>k. int k < l + i \<or> l + n \<le> int k \<longrightarrow> arr' ! k = arr ! k"
    proof (intro allI impI)
      fix k assume k: "int k < l + i \<or> l + n \<le> int k"
      then have "arr' ! k = arr1 ! k" using fr im by auto
      moreover have "k \<noteq> nat (l + i)" "k \<noteq> nat (l + m)" using k im mn less.prems(1) i0 by linarith+
      ultimately show "arr' ! k = arr ! k" by (simp add: arr1_def)
    qed
    have "sift arr l n i = Some arr'" using unf False r by (simp add: arr1_def)
    then show ?thesis using p len1 ms1 fr' by simp
  qed
qed

lemma frame_mset_inside:
  assumes "length (ys::int list) = length xs" "mset ys = mset xs"
    and "\<forall>k. k < L \<or> H \<le> k \<longrightarrow> ys ! k = xs ! k" "L \<le> H" "H \<le> length xs"
  shows "mset (take (H - L) (drop L ys)) = mset (take (H - L) (drop L xs))"
proof -
  have dec: "\<And>zs::int list. zs = take L zs @ take (H - L) (drop L zs) @ drop H zs"
  proof -
    fix zs :: "int list"
    have "drop L zs = take (H - L) (drop L zs) @ drop (H - L) (drop L zs)"
      by (rule append_take_drop_id[symmetric])
    moreover have "drop (H - L) (drop L zs) = drop H zs" using assms(4) by simp
    ultimately show "zs = take L zs @ take (H - L) (drop L zs) @ drop H zs"
      by (metis append_take_drop_id)
  qed
  have t: "take L ys = take L xs"
    using assms by (intro nth_equalityI) auto
  have d: "drop H ys = drop H xs"
    using assms by (intro nth_equalityI) auto
  have "mset ys = mset (take L ys) + mset (take (H - L) (drop L ys)) + mset (drop H ys)"
    using dec[of ys] by (metis mset_append add.assoc)
  moreover have "mset xs = mset (take L xs) + mset (take (H - L) (drop L xs)) + mset (drop H xs)"
    using dec[of xs] by (metis mset_append add.assoc)
  ultimately show ?thesis using assms(2) t d by simp
qed

lemma frame_nth_inside:
  assumes "length (ys::int list) = length xs" "mset ys = mset xs"
    and "\<forall>k. k < L \<or> H \<le> k \<longrightarrow> ys ! k = xs ! k" "L \<le> H" "H \<le> length xs"
    and "L \<le> k" "k < H"
  shows "\<exists>k'. L \<le> k' \<and> k' < H \<and> ys ! k = xs ! k'"
proof -
  let ?Y = "take (H - L) (drop L ys)" and ?X = "take (H - L) (drop L xs)"
  have "mset ?Y = mset ?X" using assms(1-5) by (rule frame_mset_inside)
  then have s: "set ?Y = set ?X" by (rule mset_eq_setD)
  have "?Y ! (k - L) = ys ! k" using assms by simp
  moreover have "k - L < length ?Y" using assms by simp
  ultimately have "ys ! k \<in> set ?Y" by (metis nth_mem)
  then have "ys ! k \<in> set ?X" using s by simp
  then obtain j where j: "j < length ?X" "?X ! j = ys ! k" by (auto simp: in_set_conv_nth)
  then have "L \<le> L + j \<and> L + j < H \<and> ys ! k = xs ! (L + j)" using assms by simp
  then show ?thesis by blast
qed

lemma heap_root_max:
  assumes "heap_from arr l n 0" "0 \<le> k" "k < n"
  shows "el arr l k \<le> el arr l 0"
  using assms(2,3)
proof (induction "nat k" arbitrary: k rule: less_induct)
  case less
  show ?case
  proof (cases "k = 0")
    case True then show ?thesis by simp
  next
    case False
    define p where "p = (k - 1) div 2"
    have p: "0 \<le> p" "p < k" "k = 2 * p + 1 \<or> k = 2 * p + 2" using False less.prems by (auto simp: p_def)
    have "edge_ok arr l n p" using assms(1) p by (simp add: heap_from_def)
    then have "el arr l k \<le> el arr l p" using p less.prems by (auto simp: edge_ok_def)
    moreover have "el arr l p \<le> el arr l 0" using p less.prems by (intro less.hyps) auto
    ultimately show ?thesis by simp
  qed
qed

lemma heapify_loop_spec:
  assumes "0 \<le> low" "low + n \<le> int (length arr)" "-1 \<le> i" "heap_from arr low n (i + 1)"
  shows "\<exists>arr'. heapify_loop arr low n i = Some arr' \<and> length arr' = length arr \<and> mset arr' = mset arr \<and>
           (\<forall>k. int k < low \<or> low + n \<le> int k \<longrightarrow> arr' ! k = arr ! k) \<and>
           heap_from arr' low n 0"
  using assms
proof (induction arr low n i rule: heapify_loop.induct)
  case (1 arr low n i)
  show ?case
  proof (cases "i > -1")
    case False
    then have "i = -1" using "1.prems" by simp
    then show ?thesis using "1.prems" by (subst heapify_loop.simps) simp
  next
    case True
    have pre: "sift_pre arr low n i i"
      using "1.prems"(4) True unfolding sift_pre_def heap_from_def by auto
    have "\<exists>arr1. sift arr low n i = Some arr1 \<and> length arr1 = length arr \<and> mset arr1 = mset arr \<and>
           (\<forall>k. int k < low + i \<or> low + n \<le> int k \<longrightarrow> arr1 ! k = arr ! k) \<and>
           heap_from arr1 low n i"
      using "1.prems" True pre by (intro sift_spec) auto
    then obtain arr1 where s: "sift arr low n i = Some arr1"
      and p1: "length arr1 = length arr" "mset arr1 = mset arr" "heap_from arr1 low n i"
      and fr1: "\<forall>k. int k < low + i \<or> low + n \<le> int k \<longrightarrow> arr1 ! k = arr ! k"
      by blast
    have "\<exists>arr'. heapify_loop arr1 low n (i - 1) = Some arr' \<and> length arr' = length arr1 \<and> mset arr' = mset arr1 \<and>
           (\<forall>k. int k < low \<or> low + n \<le> int k \<longrightarrow> arr' ! k = arr1 ! k) \<and>
           heap_from arr' low n 0"
      using True s "1.prems" p1 by (intro "1.IH") auto
    then obtain arr' where r: "heapify_loop arr1 low n (i - 1) = Some arr'"
      and p: "length arr' = length arr1" "mset arr' = mset arr1" "heap_from arr' low n 0"
      and fr: "\<forall>k. int k < low \<or> low + n \<le> int k \<longrightarrow> arr' ! k = arr1 ! k"
      by blast
    have "heapify_loop arr low n i = Some arr'"
      using True s r by (subst heapify_loop.simps) simp
    moreover have "\<forall>k. int k < low \<or> low + n \<le> int k \<longrightarrow> arr' ! k = arr ! k"
      using fr fr1 True by auto
    ultimately show ?thesis using p p1 by simp
  qed
qed

lemma el_inside_perm:
  assumes "length ys = length xs" "mset ys = mset xs"
    and "\<forall>k. int k < l \<or> l + e \<le> int k \<longrightarrow> ys ! k = xs ! k"
    and "0 \<le> l" "0 \<le> e" "l + e \<le> int (length xs)" "0 \<le> a" "a < e"
  shows "\<exists>a'. 0 \<le> a' \<and> a' < e \<and> el ys l a = el xs l a'"
proof -
  have fr: "\<forall>k. k < nat l \<or> nat (l + e) \<le> k \<longrightarrow> ys ! k = xs ! k"
    using assms(3,4,5) by auto
  have "\<exists>k'. nat l \<le> k' \<and> k' < nat (l + e) \<and> ys ! nat (l + a) = xs ! k'"
    using assms by (intro frame_nth_inside[OF assms(1,2) fr]) auto
  then obtain k' where k': "nat l \<le> k'" "k' < nat (l + e)" "ys ! nat (l + a) = xs ! k'" by blast
  have "nat (l + (int k' - l)) = k'" by simp
  then have "el ys l a = el xs l (int k' - l)" using k'(3) by (simp add: el_def)
  moreover have "0 \<le> int k' - l" "int k' - l < e" using k' assms(4,5) by auto
  ultimately show ?thesis by blast
qed

lemma extract_loop_spec:
  assumes "0 \<le> low" "low + n \<le> int (length arr)" "e < n" "-1 \<le> e"
    and "heap_from arr low (e + 1) 0"
    and "\<forall>a b. 0 \<le> a \<and> a \<le> e \<and> e < b \<and> b < n \<longrightarrow> el arr low a \<le> el arr low b"
    and "\<forall>a b. e < a \<and> a \<le> b \<and> b < n \<longrightarrow> el arr low a \<le> el arr low b"
  shows "\<exists>arr'. extract_loop arr low e = Some arr' \<and> length arr' = length arr \<and> mset arr' = mset arr \<and>
           (\<forall>k. int k < low \<or> low + n \<le> int k \<longrightarrow> arr' ! k = arr ! k) \<and>
           (\<forall>a b. 0 \<le> a \<and> a \<le> b \<and> b < n \<longrightarrow> el arr' low a \<le> el arr' low b)"
  using assms
proof (induction arr low e rule: extract_loop.induct)
  case (1 arr low e)
  note hp = \<open>heap_from arr low (e + 1) 0\<close>
  note ps = \<open>\<forall>a b. 0 \<le> a \<and> a \<le> e \<and> e < b \<and> b < n \<longrightarrow> el arr low a \<le> el arr low b\<close>
  note ss = \<open>\<forall>a b. e < a \<and> a \<le> b \<and> b < n \<longrightarrow> el arr low a \<le> el arr low b\<close>
  show ?case
  proof (cases "e > 0")
    case False
    have "\<forall>a b. 0 \<le> a \<and> a \<le> b \<and> b < n \<longrightarrow> el arr low a \<le> el arr low b"
    proof (intro allI impI)
      fix a b assume h: "0 \<le> a \<and> a \<le> b \<and> b < n"
      consider "a = b" | "a \<le> e" "e < b" | "e < a" using h False by linarith
      then show "el arr low a \<le> el arr low b"
      proof cases
        case 1 then show ?thesis by simp
      next
        case 2 then show ?thesis using ps h by blast
      next
        case 3 then show ?thesis using ss h by blast
      qed
    qed
    moreover have "extract_loop arr low e = Some arr"
      using False by (subst extract_loop.simps) simp
    ultimately show ?thesis by simp
  next
    case True
    note epos = True
    define arr1 where "arr1 = arr[nat low := el arr low e, nat (low + e) := el arr low 0]"
    have sw: "py_swap arr low (low + e) = Some arr1"
      using "1.prems"(1-3) True by (simp add: py_swap_valid arr1_def el_def)
    have len1: "length arr1 = length arr" by (simp add: arr1_def)
    have vi: "nat low < length arr" "nat (low + e) < length arr"
      using "1.prems"(1-3) True by auto
    have ms1: "mset arr1 = mset arr"
      unfolding arr1_def el_def using vi by (simp add: mset_swap)
    have el1: "\<And>k. 0 \<le> k \<Longrightarrow> el arr1 low k = (if k = e then el arr low 0 else if k = 0 then el arr low e else el arr low k)"
      unfolding arr1_def
      using el_swap[of low 0 e arr _ "el arr low e" "el arr low 0"] "1.prems"(1-3) True by simp
    have fr1: "\<forall>k. int k < low \<or> low + n \<le> int k \<longrightarrow> arr1 ! k = arr ! k"
    proof (intro allI impI)
      fix k assume k: "int k < low \<or> low + n \<le> int k"
      then have "k \<noteq> nat low" "k \<noteq> nat (low + e)" using "1.prems"(1-3) True by linarith+
      then show "arr1 ! k = arr ! k" by (simp add: arr1_def)
    qed
    have rootmax: "\<And>c. 0 \<le> c \<Longrightarrow> c \<le> e \<Longrightarrow> el arr low c \<le> el arr low 0"
      using hp by (intro heap_root_max[where n = "e + 1"]) auto
    have pre_a: "\<And>p. 0 \<le> p \<and> p \<noteq> 0 \<Longrightarrow> edge_ok arr1 low e p"
    proof -
      fix p :: int assume p: "0 \<le> p \<and> p \<noteq> 0"
      have "edge_ok arr low (e + 1) p" using hp p by (simp add: heap_from_def)
      then show "edge_ok arr1 low e p"
        using p unfolding edge_ok_def by (simp add: el1)
    qed
    have pre_b: "\<And>q::int. 0 \<le> q \<and> (0 = 2 * q + 1 \<or> 0 = 2 * q + 2) \<Longrightarrow> False"
      by linarith
    have pre: "sift_pre arr1 low e 0 0"
      unfolding sift_pre_def using pre_a pre_b by blast
    have "\<exists>arr2. sift arr1 low e 0 = Some arr2 \<and> length arr2 = length arr1 \<and> mset arr2 = mset arr1 \<and>
           (\<forall>k. int k < low + 0 \<or> low + e \<le> int k \<longrightarrow> arr2 ! k = arr1 ! k) \<and>
           heap_from arr2 low e 0"
      using "1.prems"(1-3) len1 pre by (intro sift_spec) auto
    then obtain arr2 where s: "sift arr1 low e 0 = Some arr2"
      and p2: "length arr2 = length arr1" "mset arr2 = mset arr1" "heap_from arr2 low e 0"
      and fr2: "\<forall>k. int k < low \<or> low + e \<le> int k \<longrightarrow> arr2 ! k = arr1 ! k"
      by auto
    have keep: "\<And>b. e \<le> b \<Longrightarrow> el arr2 low b = el arr1 low b"
      using fr2 "1.prems"(1) True by (simp add: el_def)
    have inside: "\<And>a. 0 \<le> a \<Longrightarrow> a < e \<Longrightarrow> \<exists>c. 0 \<le> c \<and> c \<le> e \<and> el arr2 low a = el arr low c"
    proof -
      fix a assume a: "0 \<le> a" "a < e"
      have "\<exists>a'. 0 \<le> a' \<and> a' < e \<and> el arr2 low a = el arr1 low a'"
        using p2(1,2) fr2 "1.prems"(1-3) len1 a True by (intro el_inside_perm) auto
      then obtain a' where a': "0 \<le> a'" "a' < e" "el arr2 low a = el arr1 low a'" by blast
      show "\<exists>c. 0 \<le> c \<and> c \<le> e \<and> el arr2 low a = el arr low c"
      proof (cases "a' = 0")
        case True
        then have "el arr2 low a = el arr low e" using a' by (simp add: el1)
        then show ?thesis using a by (intro exI[of _ e]) simp
      next
        case False
        then have "el arr2 low a = el arr low a'" using a' by (simp add: el1)
        then show ?thesis using a' by (intro exI[of _ a']) simp
      qed
    qed
    have ps2: "\<forall>a b. 0 \<le> a \<and> a \<le> e - 1 \<and> e - 1 < b \<and> b < n \<longrightarrow> el arr2 low a \<le> el arr2 low b"
    proof (intro allI impI)
      fix a b assume h: "0 \<le> a \<and> a \<le> e - 1 \<and> e - 1 < b \<and> b < n"
      then obtain c where c: "0 \<le> c" "c \<le> e" "el arr2 low a = el arr low c"
        using inside[of a] by auto
      have b2: "el arr2 low b = el arr1 low b" using h by (intro keep) simp
      show "el arr2 low a \<le> el arr2 low b"
      proof (cases "b = e")
        case True
        then have "el arr1 low b = el arr low 0" using h epos by (simp add: el1)
        then show ?thesis using b2 c rootmax[of c] by simp
      next
        case False
        then have "el arr1 low b = el arr low b" using h epos by (simp add: el1)
        moreover have "el arr low c \<le> el arr low b" using ps c h False by auto
        ultimately show ?thesis using b2 c by simp
      qed
    qed
    have ss2: "\<forall>a b. e - 1 < a \<and> a \<le> b \<and> b < n \<longrightarrow> el arr2 low a \<le> el arr2 low b"
    proof (intro allI impI)
      fix a b assume h: "e - 1 < a \<and> a \<le> b \<and> b < n"
      have a2: "el arr2 low a = el arr1 low a" and b2: "el arr2 low b = el arr1 low b"
        using h by (auto intro!: keep)
      show "el arr2 low a \<le> el arr2 low b"
      proof (cases "a = e")
        case True
        note ae = this
        show ?thesis
        proof (cases "b = e")
          case True then show ?thesis using ae by simp
        next
          case False
          then have "el arr1 low b = el arr low b" "el arr1 low a = el arr low 0"
            using h ae epos by (simp_all add: el1)
          moreover have "el arr low 0 \<le> el arr low b" using ps h ae False epos by auto
          ultimately show ?thesis using a2 b2 by simp
        qed
      next
        case False
        then have "el arr1 low b = el arr low b" "el arr1 low a = el arr low a"
          using h epos by (simp_all add: el1)
        moreover have "el arr low a \<le> el arr low b" using ss h False by auto
        ultimately show ?thesis using a2 b2 by simp
      qed
    qed
    have "\<exists>arr'. extract_loop arr2 low (e - 1) = Some arr' \<and> length arr' = length arr2 \<and> mset arr' = mset arr2 \<and>
           (\<forall>k. int k < low \<or> low + n \<le> int k \<longrightarrow> arr' ! k = arr2 ! k) \<and>
           (\<forall>a b. 0 \<le> a \<and> a \<le> b \<and> b < n \<longrightarrow> el arr' low a \<le> el arr' low b)"
    proof (rule "1.IH"[OF True sw s])
      show "heap_from arr2 low (e - 1 + 1) 0" using p2(3) by simp
      show "low + n \<le> int (length arr2)" using "1.prems"(2) p2(1) len1 by simp
    qed (use "1.prems"(1,3) True ps2 ss2 in auto)
    then obtain arr' where r: "extract_loop arr2 low (e - 1) = Some arr'"
      and p: "length arr' = length arr2" "mset arr' = mset arr2"
        "\<forall>a b. 0 \<le> a \<and> a \<le> b \<and> b < n \<longrightarrow> el arr' low a \<le> el arr' low b"
      and fr: "\<forall>k. int k < low \<or> low + n \<le> int k \<longrightarrow> arr' ! k = arr2 ! k"
      by blast
    have "extract_loop arr low e = Some arr'"
      using True sw s r by (subst extract_loop.simps) simp
    moreover have "\<forall>k. int k < low \<or> low + n \<le> int k \<longrightarrow> arr' ! k = arr ! k"
      using fr fr2 fr1 "1.prems"(3) by auto
    ultimately show ?thesis using p p2 len1 ms1 by simp
  qed
qed

lemma heapsort_partial_sorts:
  assumes "0 \<le> low" "low \<le> high" "high < int (length arr)"
  shows "\<exists>arr'. heapsort_partial arr low high = Some arr' \<and> sorts_range arr low high arr'"
proof -
  define n where "n = high - low + 1"
  have n: "1 \<le> n" "low + n \<le> int (length arr)" using assms by (auto simp: n_def)
  have "\<exists>arr1. heapify_loop arr low n (n div 2 - 1) = Some arr1 \<and> length arr1 = length arr \<and> mset arr1 = mset arr \<and>
           (\<forall>k. int k < low \<or> low + n \<le> int k \<longrightarrow> arr1 ! k = arr ! k) \<and>
           heap_from arr1 low n 0"
  proof (rule heapify_loop_spec)
    show "heap_from arr low n (n div 2 - 1 + 1)"
      unfolding heap_from_def edge_ok_def by auto
  qed (use assms n in auto)
  then obtain arr1 where h: "heapify_loop arr low n (n div 2 - 1) = Some arr1"
    and p1: "length arr1 = length arr" "mset arr1 = mset arr" "heap_from arr1 low n 0"
    and fr1: "\<forall>k. int k < low \<or> low + n \<le> int k \<longrightarrow> arr1 ! k = arr ! k"
    by blast
  have "\<exists>arr'. extract_loop arr1 low (n - 1) = Some arr' \<and> length arr' = length arr1 \<and> mset arr' = mset arr1 \<and>
           (\<forall>k. int k < low \<or> low + n \<le> int k \<longrightarrow> arr' ! k = arr1 ! k) \<and>
           (\<forall>a b. 0 \<le> a \<and> a \<le> b \<and> b < n \<longrightarrow> el arr' low a \<le> el arr' low b)"
    using assms n p1 by (intro extract_loop_spec) auto
  then obtain arr' where e: "extract_loop arr1 low (n - 1) = Some arr'"
    and p: "length arr' = length arr1" "mset arr' = mset arr1"
      "\<forall>a b. 0 \<le> a \<and> a \<le> b \<and> b < n \<longrightarrow> el arr' low a \<le> el arr' low b"
    and fr: "\<forall>k. int k < low \<or> low + n \<le> int k \<longrightarrow> arr' ! k = arr1 ! k"
    by blast
  have eq: "heapsort_partial arr low high = Some arr'"
    using h e by (simp add: heapsort_partial_def n_def drop_bit_eq_div)
  have srt: "\<forall>a b. low \<le> int a \<and> a \<le> b \<and> int b \<le> high \<longrightarrow> arr' ! a \<le> arr' ! b"
  proof (intro allI impI)
    fix a b :: nat assume h: "low \<le> int a \<and> a \<le> b \<and> int b \<le> high"
    then have "el arr' low (int a - low) \<le> el arr' low (int b - low)"
      using p(3) by (auto simp: n_def)
    then show "arr' ! a \<le> arr' ! b" by (simp add: el_def)
  qed
  have "\<forall>k. int k < low \<or> high < int k \<longrightarrow> arr' ! k = arr ! k"
    using fr fr1 by (auto simp: n_def)
  then have "sorts_range arr low high arr'"
    using p p1 srt by (simp add: sorts_range_def)
  with eq show ?thesis by blast
qed

text \<open>
  Claim C10. The subrange operations respect their bounds: for valid bounds
  \<open>0 \<le> low \<le> high < len(arr)\<close>, \<^verbatim>\<open>_insertion_sort(arr, low, high)\<close> and
  \<^verbatim>\<open>_heapsort_partial(arr, low, high)\<close> return, keep the length of the list, and
  leave every element at an index outside \<open>[low, high]\<close> as it was.
\<close>

theorem range_sorters_frame:
  assumes "0 \<le> low" "low \<le> high" "high < int (length arr)"
  shows "(\<exists>arr'. insertion_sort arr low high = Some arr' \<and> length arr' = length arr \<and>
            (\<forall>n. n < length arr \<and> (int n < low \<or> high < int n) \<longrightarrow> arr' ! n = arr ! n)) \<and>
         (\<exists>arr'. heapsort_partial arr low high = Some arr' \<and> length arr' = length arr \<and>
            (\<forall>n. n < length arr \<and> (int n < low \<or> high < int n) \<longrightarrow> arr' ! n = arr ! n))"
proof
  from insertion_sort_sorts[OF assms]
  show "\<exists>arr'. insertion_sort arr low high = Some arr' \<and> length arr' = length arr \<and>
            (\<forall>n. n < length arr \<and> (int n < low \<or> high < int n) \<longrightarrow> arr' ! n = arr ! n)"
    unfolding sorts_range_def by blast
  from heapsort_partial_sorts[OF assms]
  show "\<exists>arr'. heapsort_partial arr low high = Some arr' \<and> length arr' = length arr \<and>
            (\<forall>n. n < length arr \<and> (int n < low \<or> high < int n) \<longrightarrow> arr' ! n = arr ! n)"
    unfolding sorts_range_def by blast
qed

theorem range_sorters_frame_witness:
  "(\<exists>arr'. insertion_sort [5, 3, 8, 3, 9, 1, 0] 1 4 = Some arr' \<and>
      arr' ! 0 = 5 \<and> arr' ! 5 = 1 \<and> arr' ! 6 = 0) \<and>
   (\<exists>arr'. heapsort_partial [5, 3, 8, 3, 9, 1, 0] 1 4 = Some arr' \<and>
      arr' ! 0 = 5 \<and> arr' ! 5 = 1 \<and> arr' ! 6 = 0)"
proof -
  let ?A = "[5, 3, 8, 3, 9, 1, 0] :: int list"
  have h: "(0::int) \<le> 1" "(1::int) \<le> 4" "4 < int (length ?A)" by simp_all
  from range_sorters_frame[OF h] obtain a b where
    a: "insertion_sort ?A 1 4 = Some a"
      "\<forall>n. n < length ?A \<and> (int n < 1 \<or> 4 < int n) \<longrightarrow> a ! n = ?A ! n"
    and b: "heapsort_partial ?A 1 4 = Some b"
      "\<forall>n. n < length ?A \<and> (int n < 1 \<or> 4 < int n) \<longrightarrow> b ! n = ?A ! n"
    by blast
  have "a ! 0 = 5" "a ! 5 = 1" "a ! 6 = 0"
    using a(2)[rule_format, of 0] a(2)[rule_format, of 5] a(2)[rule_format, of 6] by simp_all
  moreover have "b ! 0 = 5" "b ! 5 = 1" "b ! 6 = 0"
    using b(2)[rule_format, of 0] b(2)[rule_format, of 5] b(2)[rule_format, of 6] by simp_all
  ultimately show ?thesis using a(1) b(1) by simp
qed

section \<open>Pivot selection\<close>

text \<open>
  \<^verbatim>\<open>_median_of_three\<close> (lines 77-93) and \<^verbatim>\<open>_median_of_ninthers\<close> (lines 95-103).
  \<open>py_all\<close> evaluates the elements of a list comprehension in order and fails with the
  first that fails; \<open>py_slice xs a b\<close> is \<^verbatim>\<open>xs[a:b]\<close> for \<open>0 \<le> a \<le> b\<close> (a slice never
  raises); \<^verbatim>\<open>sorted\<close> on integers is \<^term>\<open>sort\<close>; a sorted triple has an element at
  index 1.
\<close>

definition median_of_three :: "int list \<Rightarrow> int \<Rightarrow> int \<Rightarrow> int option" where
  "median_of_three arr low high =
     do { let mid = drop_bit 1 (low + high);
          a \<leftarrow> py_get arr low; b \<leftarrow> py_get arr mid; c \<leftarrow> py_get arr high;
          Some (if a < b
                then (if b < c then b else if a < c then c else a)
                else (if a < c then a else if b < c then c else b)) }"

fun py_all :: "'a option list \<Rightarrow> 'a list option" where
  "py_all [] = Some []"
| "py_all (x # xs) = do { y \<leftarrow> x; ys \<leftarrow> py_all xs; Some (y # ys) }"

definition py_slice :: "'a list \<Rightarrow> nat \<Rightarrow> nat \<Rightarrow> 'a list" where
  "py_slice xs a b = take (b - a) (drop a xs)"

definition median_of_ninthers :: "int list \<Rightarrow> int \<Rightarrow> int \<Rightarrow> int option" where
  "median_of_ninthers arr low high =
     (let size = high - low + 1 in
      if size < 9 then py_get arr (drop_bit 1 (low + high))
      else do {
        let step = max (size div 9) 1;
        samples \<leftarrow> py_all (map (\<lambda>i. py_get arr (low + i * step)) [0..8]);
        let groups = map (\<lambda>i. sort (py_slice samples i (i + 3))) [0, 3, 6];
        let medians = map (\<lambda>g. g ! 1) groups;
        Some (sort medians ! 1) })"

text \<open>
  The pivot as the specification words it: the median of three values, and the median
  of the three medians of the consecutive triples of nine samples taken \<open>step\<close> apart.
\<close>

definition median3 :: "int \<Rightarrow> int \<Rightarrow> int \<Rightarrow> int" where
  "median3 a b c = max (min a b) (min (max a b) c)"

definition ninther_spec :: "int list \<Rightarrow> int \<Rightarrow> int \<Rightarrow> int" where
  "ninther_spec arr low high =
     (let size = high - low + 1 in
      if size < 9 then arr ! nat ((low + high) div 2)
      else
        let step = max (size div 9) 1;
            s = (\<lambda>i. arr ! nat (low + i * step))
        in median3 (median3 (s 0) (s 1) (s 2))
                   (median3 (s 3) (s 4) (s 5))
                   (median3 (s 6) (s 7) (s 8)))"

lemma sort3_middle: "sort [a, b, c :: int] ! Suc 0 = median3 a b c"
  by (auto simp: median3_def max_def min_def)

lemma median3_in: "median3 a b c = a \<or> median3 a b c = b \<or> median3 a b c = c"
  by (auto simp: median3_def max_def min_def)

lemma median3_two_ge:
  "(median3 a b c \<le> a \<and> median3 a b c \<le> b) \<or> (median3 a b c \<le> a \<and> median3 a b c \<le> c) \<or>
   (median3 a b c \<le> b \<and> median3 a b c \<le> c)"
  by (auto simp: median3_def max_def min_def)

lemma range9: "[0..8] = [0, 1, 2, 3, 4, 5, 6, 7, 8::int]"
  by code_simp

lemma median_of_ninthers_eq:
  assumes "0 \<le> low" "low \<le> high" "high < int (length arr)"
  shows "median_of_ninthers arr low high = Some (ninther_spec arr low high)"
proof (cases "high - low + 1 < 9")
  case True
  have "0 \<le> (low + high) div 2" "(low + high) div 2 < int (length arr)" using assms by auto
  then show ?thesis
    using True by (simp add: median_of_ninthers_def ninther_spec_def drop_bit_eq_div py_get_valid)
next
  case False
  define step where "step = (high - low + 1) div 9"
  have mx: "max ((high - low + 1) div 9) 1 = step" using False by (simp add: step_def)
  have st: "1 \<le> step" "low + 8 * step \<le> high"
    using False by (auto simp: step_def)
  have g: "\<And>i. 0 \<le> i \<Longrightarrow> i \<le> 8 \<Longrightarrow> py_get arr (low + i * step) = Some (arr ! nat (low + i * step))"
  proof -
    fix i :: int assume i: "0 \<le> i" "i \<le> 8"
    have "i * step \<le> 8 * step" using i st by (intro mult_right_mono) auto
    moreover have "0 \<le> i * step" using i st by simp
    ultimately show "py_get arr (low + i * step) = Some (arr ! nat (low + i * step))"
      using assms st by (intro py_get_valid) linarith+
  qed
  have smp: "py_all (map (\<lambda>i. py_get arr (low + i * step)) [0..8]) =
      Some (map (\<lambda>i. arr ! nat (low + i * step)) [0, 1, 2, 3, 4, 5, 6, 7, 8])"
    unfolding range9 using g[of 0] g[of 1] g[of 2] g[of 3] g[of 4] g[of 5] g[of 6] g[of 7] g[of 8]
    by simp
  show ?thesis
    using False smp unfolding median_of_ninthers_def ninther_spec_def Let_def mx
    by (simp add: py_slice_def sort3_middle del: sort_key_simps)
qed

lemma ninther_occurs:
  fixes s :: "int \<Rightarrow> int"
  shows "\<exists>i. 0 \<le> i \<and> i \<le> 8 \<and>
     s i = median3 (median3 (s 0) (s 1) (s 2)) (median3 (s 3) (s 4) (s 5)) (median3 (s 6) (s 7) (s 8))"
proof -
  let ?m1 = "median3 (s 0) (s 1) (s 2)" and ?m2 = "median3 (s 3) (s 4) (s 5)"
    and ?m3 = "median3 (s 6) (s 7) (s 8)"
  let ?p = "median3 ?m1 ?m2 ?m3"
  have a: "\<And>i. 0 \<le> i \<and> i \<le> 8 \<and> s i = ?p \<Longrightarrow> ?thesis" by blast
  have "?p = ?m1 \<or> ?p = ?m2 \<or> ?p = ?m3" by (rule median3_in)
  moreover have "?m1 = s 0 \<or> ?m1 = s 1 \<or> ?m1 = s 2" by (rule median3_in)
  moreover have "?m2 = s 3 \<or> ?m2 = s 4 \<or> ?m2 = s 5" by (rule median3_in)
  moreover have "?m3 = s 6 \<or> ?m3 = s 7 \<or> ?m3 = s 8" by (rule median3_in)
  ultimately have "?p = s 0 \<or> ?p = s 1 \<or> ?p = s 2 \<or> ?p = s 3 \<or> ?p = s 4 \<or> ?p = s 5 \<or>
      ?p = s 6 \<or> ?p = s 7 \<or> ?p = s 8"
    by (elim disjE) simp_all
  then show ?thesis
    using a[of 0] a[of 1] a[of 2] a[of 3] a[of 4] a[of 5] a[of 6] a[of 7] a[of 8]
    by (elim disjE) simp_all
qed

lemma ninther_not_last:
  fixes s :: "int \<Rightarrow> int"
  shows "\<exists>i. 0 \<le> i \<and> i \<le> 5 \<and>
     median3 (median3 (s 0) (s 1) (s 2)) (median3 (s 3) (s 4) (s 5)) (median3 (s 6) (s 7) (s 8)) \<le> s i"
proof -
  let ?m1 = "median3 (s 0) (s 1) (s 2)" and ?m2 = "median3 (s 3) (s 4) (s 5)"
    and ?m3 = "median3 (s 6) (s 7) (s 8)"
  let ?p = "median3 ?m1 ?m2 ?m3"
  have a: "\<And>i. 0 \<le> i \<and> i \<le> 5 \<and> ?p \<le> s i \<Longrightarrow> ?thesis" by blast
  have "?p \<le> ?m1 \<or> ?p \<le> ?m2" using median3_two_ge[of ?m1 ?m2 ?m3] by blast
  moreover have "?m1 = s 0 \<or> ?m1 = s 1 \<or> ?m1 = s 2" by (rule median3_in)
  moreover have "?m2 = s 3 \<or> ?m2 = s 4 \<or> ?m2 = s 5" by (rule median3_in)
  ultimately have "?p \<le> s 0 \<or> ?p \<le> s 1 \<or> ?p \<le> s 2 \<or> ?p \<le> s 3 \<or> ?p \<le> s 4 \<or> ?p \<le> s 5"
    by (elim disjE) simp_all
  then show ?thesis
    using a[of 0] a[of 1] a[of 2] a[of 3] a[of 4] a[of 5]
    by (elim disjE) simp_all
qed

lemma ninther_pivot:
  assumes "0 \<le> low" "high < int (length arr)" "9 \<le> high - low + 1"
  shows "\<exists>p. median_of_ninthers arr low high = Some p \<and>
           (\<exists>k. low \<le> k \<and> k \<le> high \<and> arr ! nat k = p) \<and>
           (\<exists>k. low \<le> k \<and> k < high \<and> p \<le> arr ! nat k)"
proof -
  define step where "step = (high - low + 1) div 9"
  have mx: "max ((high - low + 1) div 9) 1 = step" using assms by (simp add: step_def)
  have st: "1 \<le> step" "low + 8 * step \<le> high" using assms by (auto simp: step_def)
  define s where "s = (\<lambda>i. arr ! nat (low + i * step))"
  define p where "p = median3 (median3 (s 0) (s 1) (s 2)) (median3 (s 3) (s 4) (s 5)) (median3 (s 6) (s 7) (s 8))"
  have sp: "ninther_spec arr low high = p"
    using assms(3) unfolding ninther_spec_def Let_def mx p_def s_def by simp
  have eq: "median_of_ninthers arr low high = Some p"
    using median_of_ninthers_eq[of low high arr] assms sp by simp
  obtain i where i: "0 \<le> i" "i \<le> 8" "s i = p"
    using ninther_occurs[of s] unfolding p_def by blast
  have "i * step \<le> 8 * step" using i st by (intro mult_right_mono) auto
  moreover have "0 \<le> i * step" using i st by simp
  ultimately have "low \<le> low + i * step \<and> low + i * step \<le> high \<and> arr ! nat (low + i * step) = p"
    using st i(3) unfolding s_def by linarith
  then have occ: "\<exists>k. low \<le> k \<and> k \<le> high \<and> arr ! nat k = p" by blast
  obtain i' where i': "0 \<le> i'" "i' \<le> 5" "p \<le> s i'"
    using ninther_not_last[of s] unfolding p_def by blast
  have "i' * step \<le> 5 * step" using i' st by (intro mult_right_mono) auto
  moreover have "0 \<le> i' * step" using i' st by simp
  ultimately have "low \<le> low + i' * step \<and> low + i' * step < high \<and> p \<le> arr ! nat (low + i' * step)"
    using st i'(3) unfolding s_def by linarith
  then have nl: "\<exists>k. low \<le> k \<and> k < high \<and> p \<le> arr ! nat k" by blast
  show ?thesis using eq occ nl by blast
qed

lemma median3_is_middle: "\<exists>x z. sort [a, b, c] = [x, median3 a b c, z]"
  by (auto simp: median3_def max_def min_def)

text \<open>
  Claim C8. For a list \<open>arr\<close> and a range \<open>[low, high]\<close> inside it:
  \<^verbatim>\<open>_median_of_ninthers\<close> returns \<^verbatim>\<open>arr[(low+high)/2]\<close> (floor division) when the range
  has fewer than 9 elements; otherwise, with \<open>step = max (size // 9) 1\<close>, it returns the
  median of the three medians of the consecutive triples of the nine samples
  \<^verbatim>\<open>arr[low + i*step]\<close>, \<open>i = 0..8\<close>. The right-hand side \<open>ninther_spec\<close> is written from
  the specification's words; the left-hand side is the code.
\<close>

theorem median_of_ninthers_formula:
  assumes "0 \<le> low" "low \<le> high" "high < int (length arr)"
  shows "median_of_ninthers arr low high = Some (ninther_spec arr low high)"
  using assms by (rule median_of_ninthers_eq)

theorem median_of_ninthers_formula_witness:
  "median_of_ninthers [10, 9, 8, 7, 6, 5, 4, 3, 2, 1, 0, 11, 12, 13, 14, 15, 16, 17] 0 17 = Some 8 \<and>
   median_of_ninthers [4, 2, 7, 1] 0 3 = Some 2"
proof -
  let ?A = "[10, 9, 8, 7, 6, 5, 4, 3, 2, 1, 0, 11, 12, 13, 14, 15, 16, 17] :: int list"
  let ?B = "[4, 2, 7, 1] :: int list"
  have "ninther_spec ?A 0 17 = 8" by code_simp
  moreover have "ninther_spec ?B 0 3 = 2" by code_simp
  ultimately show ?thesis
    using median_of_ninthers_formula[of 0 17 ?A] median_of_ninthers_formula[of 0 3 ?B] by simp
qed

section \<open>The introsort driver\<close>

text \<open>
  \<^verbatim>\<open>_introsort\<close> (lines 123-148) and \<^verbatim>\<open>introsort\<close> (lines 118-121), with the module
  constant \<^verbatim>\<open>USE_NINTHERS = True\<close> (line 13). An iteration of the loop
  \<^verbatim>\<open>while low < high\<close> is a call of \<open>introsort_driver\<close>: the nested call of the source is
  the first recursive call, with \<open>maxdepth - 1\<close>; the loop-back, which only assigns \<open>low\<close>
  or \<open>high\<close>, is the second, with \<open>maxdepth\<close> as it is. Beside the list the driver returns
  the routines it has run, in order: an \<open>event\<close> names the routine and its range, and
  for a partition also the budget. \<open>bit_length\<close> is \<^verbatim>\<open>int.bit_length\<close>.
\<close>

definition USE_NINTHERS :: bool where
  "USE_NINTHERS = True"

datatype event = InsertionSort int int | HeapFallback int int | Partition int int int

partial_function (option) introsort_driver ::
  "int list \<Rightarrow> int \<Rightarrow> int \<Rightarrow> int \<Rightarrow> (int list \<times> event list) option" where
  "introsort_driver arr low high maxdepth =
     (if low < high
      then if high - low + 1 \<le> 16
           then do { arr' \<leftarrow> insertion_sort arr low high;
                     Some (arr', [InsertionSort low high]) }
           else if maxdepth = 0
           then do { arr' \<leftarrow> heapsort_partial arr low high;
                     Some (arr', [HeapFallback low high]) }
           else do {
             pivot \<leftarrow> (if USE_NINTHERS then median_of_ninthers arr low high
                        else median_of_three arr low high);
             (arr1, j, reads) \<leftarrow> partition_loop arr pivot (low - 1) (high + 1);
             if j - low < high - j
             then do { (arr2, ev1) \<leftarrow> introsort_driver arr1 low j (maxdepth - 1);
                       (arr3, ev2) \<leftarrow> introsort_driver arr2 (j + 1) high maxdepth;
                       Some (arr3, Partition low high maxdepth # ev1 @ ev2) }
             else do { (arr2, ev1) \<leftarrow> introsort_driver arr1 (j + 1) high (maxdepth - 1);
                       (arr3, ev2) \<leftarrow> introsort_driver arr2 low j maxdepth;
                       Some (arr3, Partition low high maxdepth # ev1 @ ev2) } }
      else Some (arr, []))"

declare introsort_driver.simps [code]

function bit_length :: "int \<Rightarrow> int" where
  "bit_length n = (if n = 0 then 0 else 1 + bit_length (\<bar>n\<bar> div 2))"
  by pat_completeness auto
termination
  by (relation "measure (\<lambda>n. nat \<bar>n\<bar>)") auto

declare bit_length.simps [simp del]

definition introsort :: "int list \<Rightarrow> int list option" where
  "introsort arr =
     do { let maxdepth = (bit_length (int (length arr)) - 1) * 2;
          (arr', events) \<leftarrow> introsort_driver arr 0 (int (length arr) - 1) maxdepth;
          Some arr' }"

lemma sorts_range_keeps:
  assumes sr: "sorts_range xs L H ys"
    and v: "0 \<le> L" "L \<le> H + 1" "H < int (length xs)"
    and P: "\<forall>n. L \<le> int n \<and> int n \<le> H \<longrightarrow> P (xs ! n)"
    and n: "L \<le> int n" "int n \<le> H"
  shows "P (ys ! n)"
proof -
  from sr have len: "length ys = length xs" and ms: "mset ys = mset xs"
    and fr: "\<forall>k. int k < L \<or> H < int k \<longrightarrow> ys ! k = xs ! k"
    by (auto simp: sorts_range_def)
  have fr': "\<forall>k. k < nat L \<or> nat (H + 1) \<le> k \<longrightarrow> ys ! k = xs ! k"
    using fr v by auto
  have "\<exists>k'. nat L \<le> k' \<and> k' < nat (H + 1) \<and> ys ! n = xs ! k'"
    using v n by (intro frame_nth_inside[OF len ms fr']) auto
  then obtain k' where "nat L \<le> k'" "k' < nat (H + 1)" "ys ! n = xs ! k'" by blast
  moreover from this have "L \<le> int k' \<and> int k' \<le> H" using v by auto
  ultimately show ?thesis using P by simp
qed

lemma sorts_range_trivial:
  assumes "high \<le> low"
  shows "sorts_range arr low high arr"
  unfolding sorts_range_def
proof (intro conjI allI impI)
  fix a b :: nat assume "low \<le> int a \<and> a \<le> b \<and> int b \<le> high"
  then have "a = b" using assms by linarith
  then show "arr ! a \<le> arr ! b" by simp
qed auto

lemma sorts_range_join:
  assumes v: "0 \<le> low" "low \<le> j" "j < high" "high < int (length arr)"
    and len1: "length arr1 = length arr" and ms1: "mset arr1 = mset arr"
    and fr1: "\<forall>n. int n < low \<or> high < int n \<longrightarrow> arr1 ! n = arr ! n"
    and le: "\<forall>n. low \<le> int n \<and> int n \<le> j \<longrightarrow> arr1 ! n \<le> p"
    and ge: "\<forall>n. j < int n \<and> int n \<le> high \<longrightarrow> p \<le> arr1 ! n"
    and s1: "sorts_range arr1 low j arr2" and s2: "sorts_range arr2 (j + 1) high arr3"
  shows "sorts_range arr low high arr3"
proof -
  from s1 have l2: "length arr2 = length arr1" and m2: "mset arr2 = mset arr1"
    and f2: "\<forall>k. int k < low \<or> j < int k \<longrightarrow> arr2 ! k = arr1 ! k"
    and o2: "\<forall>a b. low \<le> int a \<and> a \<le> b \<and> int b \<le> j \<longrightarrow> arr2 ! a \<le> arr2 ! b"
    by (auto simp: sorts_range_def)
  from s2 have l3: "length arr3 = length arr2" and m3: "mset arr3 = mset arr2"
    and f3: "\<forall>k. int k < j + 1 \<or> high < int k \<longrightarrow> arr3 ! k = arr2 ! k"
    and o3: "\<forall>a b. j + 1 \<le> int a \<and> a \<le> b \<and> int b \<le> high \<longrightarrow> arr3 ! a \<le> arr3 ! b"
    by (auto simp: sorts_range_def)
  have left: "\<And>n. low \<le> int n \<Longrightarrow> int n \<le> j \<Longrightarrow> arr3 ! n \<le> p"
  proof -
    fix n assume n: "low \<le> int n" "int n \<le> j"
    have "arr2 ! n \<le> p"
      using v len1 n by (intro sorts_range_keeps[OF s1, where P = "\<lambda>x. x \<le> p"] le) auto
    then show "arr3 ! n \<le> p" using f3 n by simp
  qed
  have ge2: "\<forall>n. j + 1 \<le> int n \<and> int n \<le> high \<longrightarrow> p \<le> arr2 ! n"
    using ge f2 by auto
  have right: "\<And>n. j < int n \<Longrightarrow> int n \<le> high \<Longrightarrow> p \<le> arr3 ! n"
  proof -
    fix n assume n: "j < int n" "int n \<le> high"
    show "p \<le> arr3 ! n"
      using v len1 l2 n by (intro sorts_range_keeps[OF s2, where P = "\<lambda>x. p \<le> x"] ge2) auto
  qed
  have ord: "\<forall>a b. low \<le> int a \<and> a \<le> b \<and> int b \<le> high \<longrightarrow> arr3 ! a \<le> arr3 ! b"
  proof (intro allI impI)
    fix a b :: nat assume h: "low \<le> int a \<and> a \<le> b \<and> int b \<le> high"
    consider "int b \<le> j" | "j < int a" | "int a \<le> j" "j < int b" by linarith
    then show "arr3 ! a \<le> arr3 ! b"
    proof cases
      case 1
      then have "arr3 ! a = arr2 ! a" "arr3 ! b = arr2 ! b" using f3 h by auto
      moreover have "arr2 ! a \<le> arr2 ! b" using o2 h 1 by simp
      ultimately show ?thesis by simp
    next
      case 2
      then show ?thesis using o3 h by simp
    next
      case 3
      then have "arr3 ! a \<le> p" "p \<le> arr3 ! b" using left[of a] right[of b] h by auto
      then show ?thesis by simp
    qed
  qed
  have "\<forall>n. int n < low \<or> high < int n \<longrightarrow> arr3 ! n = arr ! n"
    using f3 f2 fr1 v by auto
  then show ?thesis
    using l3 l2 len1 m3 m2 ms1 ord by (simp add: sorts_range_def)
qed

lemma sorts_range_join':
  assumes v: "0 \<le> low" "low \<le> j" "j < high" "high < int (length arr)"
    and len1: "length arr1 = length arr" and ms1: "mset arr1 = mset arr"
    and fr1: "\<forall>n. int n < low \<or> high < int n \<longrightarrow> arr1 ! n = arr ! n"
    and le: "\<forall>n. low \<le> int n \<and> int n \<le> j \<longrightarrow> arr1 ! n \<le> p"
    and ge: "\<forall>n. j < int n \<and> int n \<le> high \<longrightarrow> p \<le> arr1 ! n"
    and s1: "sorts_range arr1 (j + 1) high arr2" and s2: "sorts_range arr2 low j arr3"
  shows "sorts_range arr low high arr3"
proof -
  from s1 have l2: "length arr2 = length arr1" and m2: "mset arr2 = mset arr1"
    and f2: "\<forall>k. int k < j + 1 \<or> high < int k \<longrightarrow> arr2 ! k = arr1 ! k"
    and o2: "\<forall>a b. j + 1 \<le> int a \<and> a \<le> b \<and> int b \<le> high \<longrightarrow> arr2 ! a \<le> arr2 ! b"
    by (auto simp: sorts_range_def)
  from s2 have l3: "length arr3 = length arr2" and m3: "mset arr3 = mset arr2"
    and f3: "\<forall>k. int k < low \<or> j < int k \<longrightarrow> arr3 ! k = arr2 ! k"
    and o3: "\<forall>a b. low \<le> int a \<and> a \<le> b \<and> int b \<le> j \<longrightarrow> arr3 ! a \<le> arr3 ! b"
    by (auto simp: sorts_range_def)
  have ge1: "\<forall>n. j + 1 \<le> int n \<and> int n \<le> high \<longrightarrow> p \<le> arr1 ! n"
    using ge by auto
  have right: "\<And>n. j < int n \<Longrightarrow> int n \<le> high \<Longrightarrow> p \<le> arr3 ! n"
  proof -
    fix n assume n: "j < int n" "int n \<le> high"
    have "p \<le> arr2 ! n"
      using v len1 n by (intro sorts_range_keeps[OF s1, where P = "\<lambda>x. p \<le> x"] ge1) auto
    then show "p \<le> arr3 ! n" using f3 n by simp
  qed
  have le2: "\<forall>n. low \<le> int n \<and> int n \<le> j \<longrightarrow> arr2 ! n \<le> p"
    using le f2 by auto
  have left: "\<And>n. low \<le> int n \<Longrightarrow> int n \<le> j \<Longrightarrow> arr3 ! n \<le> p"
  proof -
    fix n assume n: "low \<le> int n" "int n \<le> j"
    show "arr3 ! n \<le> p"
      using v len1 l2 n by (intro sorts_range_keeps[OF s2, where P = "\<lambda>x. x \<le> p"] le2) auto
  qed
  have ord: "\<forall>a b. low \<le> int a \<and> a \<le> b \<and> int b \<le> high \<longrightarrow> arr3 ! a \<le> arr3 ! b"
  proof (intro allI impI)
    fix a b :: nat assume h: "low \<le> int a \<and> a \<le> b \<and> int b \<le> high"
    consider "int b \<le> j" | "j < int a" | "int a \<le> j" "j < int b" by linarith
    then show "arr3 ! a \<le> arr3 ! b"
    proof cases
      case 1
      then show ?thesis using o3 h by simp
    next
      case 2
      then have "arr3 ! a = arr2 ! a" "arr3 ! b = arr2 ! b" using f3 h by auto
      moreover have "arr2 ! a \<le> arr2 ! b" using o2 h 2 by simp
      ultimately show ?thesis by simp
    next
      case 3
      then have "arr3 ! a \<le> p" "p \<le> arr3 ! b" using left[of a] right[of b] h by auto
      then show ?thesis by simp
    qed
  qed
  have "\<forall>n. int n < low \<or> high < int n \<longrightarrow> arr3 ! n = arr ! n"
    using f3 f2 fr1 v by auto
  then show ?thesis
    using l3 l2 len1 m3 m2 ms1 ord by (simp add: sorts_range_def)
qed

lemma ninther_partition:
  assumes "0 \<le> low" "high < int (length arr)" "9 \<le> high - low + 1"
  shows "\<exists>p arr1 j reads. median_of_ninthers arr low high = Some p \<and>
     partition_loop arr p (low - 1) (high + 1) = Some (arr1, j, reads) \<and>
     length arr1 = length arr \<and> mset arr1 = mset arr \<and>
     (\<forall>n. int n < low \<or> high < int n \<longrightarrow> arr1 ! n = arr ! n) \<and>
     low \<le> j \<and> j < high \<and>
     (\<forall>n. low \<le> int n \<and> int n \<le> j \<longrightarrow> arr1 ! n \<le> p) \<and>
     (\<forall>n. j < int n \<and> int n \<le> high \<longrightarrow> p \<le> arr1 ! n)"
proof -
  have le: "low \<le> high" using assms(3) by simp
  from ninther_pivot[OF assms] obtain p where
    pv: "median_of_ninthers arr low high = Some p"
    and occ: "\<exists>k. low \<le> k \<and> k \<le> high \<and> arr ! nat k = p"
    and nl: "\<exists>k. low \<le> k \<and> k < high \<and> p \<le> arr ! nat k"
    by blast
  from partition_range[OF assms(1) le assms(2) occ] obtain arr1 j reads where
    pl: "partition_loop arr p (low - 1) (high + 1) = Some (arr1, j, reads)"
    and len1: "length arr1 = length arr" and ms1: "mset arr1 = mset arr"
    and fr1: "\<forall>n. int n < low \<or> high < int n \<longrightarrow> arr1 ! n = arr ! n"
    and jb: "low \<le> j" "j \<le> high"
    and lep: "\<forall>n. low \<le> int n \<and> int n \<le> j \<longrightarrow> arr1 ! n \<le> p"
    and gep: "\<forall>n. j < int n \<and> int n \<le> high \<longrightarrow> p \<le> arr1 ! n"
    and deg: "j = high \<longrightarrow> (\<forall>n. low \<le> int n \<and> int n < high \<longrightarrow> arr ! n < p)"
    by blast
  have jlt: "j < high"
  proof (rule ccontr)
    assume "\<not> j < high"
    then have a: "\<forall>n. low \<le> int n \<and> int n < high \<longrightarrow> arr ! n < p" using jb deg by simp
    from nl obtain k where k: "low \<le> k" "k < high" "p \<le> arr ! nat k" by blast
    have "arr ! nat k < p" using k assms(1) by (intro a[rule_format]) simp
    then show False using k by simp
  qed
  show ?thesis using pv pl len1 ms1 fr1 jb(1) jlt lep gep by blast
qed

lemma introsort_driver_sorts:
  assumes "0 \<le> low" "high < int (length arr)"
  shows "\<exists>arr' ev. introsort_driver arr low high d = Some (arr', ev) \<and> sorts_range arr low high arr'"
  using assms
proof (induction "nat (high - low)" arbitrary: arr low high d rule: less_induct)
  case less
  note unf = introsort_driver.simps[of arr low high d]
  show ?case
  proof (cases "low < high")
    case False
    then have "introsort_driver arr low high d = Some (arr, [])" using unf by simp
    moreover have "sorts_range arr low high arr" using False by (intro sorts_range_trivial) simp
    ultimately show ?thesis by blast
  next
    case True
    note lh = True
    have le: "low \<le> high" using lh by simp
    show ?thesis
    proof (cases "high - low + 1 \<le> 16")
      case True
      from insertion_sort_sorts[OF less.prems(1) le less.prems(2)] obtain arr' where
        "insertion_sort arr low high = Some arr'" "sorts_range arr low high arr'" by blast
      moreover from this have "introsort_driver arr low high d = Some (arr', [InsertionSort low high])"
        using unf lh True by simp
      ultimately show ?thesis by blast
    next
      case False
      note big = False
      show ?thesis
      proof (cases "d = 0")
        case True
        from heapsort_partial_sorts[OF less.prems(1) le less.prems(2)] obtain arr' where
          "heapsort_partial arr low high = Some arr'" "sorts_range arr low high arr'" by blast
        moreover from this have "introsort_driver arr low high d = Some (arr', [HeapFallback low high])"
          using unf lh big True by simp
        ultimately show ?thesis by blast
      next
        case False
        note dpos = False
        have "9 \<le> high - low + 1" using big by simp
        from ninther_partition[OF less.prems(1,2) this] obtain p arr1 j reads where
          pv: "median_of_ninthers arr low high = Some p"
          and pl: "partition_loop arr p (low - 1) (high + 1) = Some (arr1, j, reads)"
          and len1: "length arr1 = length arr" and ms1: "mset arr1 = mset arr"
          and fr1: "\<forall>n. int n < low \<or> high < int n \<longrightarrow> arr1 ! n = arr ! n"
          and jb: "low \<le> j" and jlt: "j < high"
          and lep: "\<forall>n. low \<le> int n \<and> int n \<le> j \<longrightarrow> arr1 ! n \<le> p"
          and gep: "\<forall>n. j < int n \<and> int n \<le> high \<longrightarrow> p \<le> arr1 ! n"
          by blast
        show ?thesis
        proof (cases "j - low < high - j")
          case True
          have "\<exists>arr2 ev1. introsort_driver arr1 low j (d - 1) = Some (arr2, ev1) \<and> sorts_range arr1 low j arr2"
            using less.prems jb jlt len1 by (intro less.hyps) auto
          then obtain arr2 ev1 where r1: "introsort_driver arr1 low j (d - 1) = Some (arr2, ev1)"
            and s1: "sorts_range arr1 low j arr2" by blast
          have len2: "length arr2 = length arr" using s1 len1 by (simp add: sorts_range_def)
          have "\<exists>arr3 ev2. introsort_driver arr2 (j + 1) high d = Some (arr3, ev2) \<and> sorts_range arr2 (j + 1) high arr3"
            using less.prems jb jlt len2 by (intro less.hyps) auto
          then obtain arr3 ev2 where r2: "introsort_driver arr2 (j + 1) high d = Some (arr3, ev2)"
            and s2: "sorts_range arr2 (j + 1) high arr3" by blast
          have "sorts_range arr low high arr3"
            by (rule sorts_range_join[OF less.prems(1) jb jlt less.prems(2) len1 ms1 fr1 lep gep s1 s2])
          moreover have "introsort_driver arr low high d = Some (arr3, Partition low high d # ev1 @ ev2)"
            using unf lh big dpos pv pl True r1 r2 by (simp add: USE_NINTHERS_def)
          ultimately show ?thesis by blast
        next
          case False
          have "\<exists>arr2 ev1. introsort_driver arr1 (j + 1) high (d - 1) = Some (arr2, ev1) \<and> sorts_range arr1 (j + 1) high arr2"
            using less.prems jb jlt len1 by (intro less.hyps) auto
          then obtain arr2 ev1 where r1: "introsort_driver arr1 (j + 1) high (d - 1) = Some (arr2, ev1)"
            and s1: "sorts_range arr1 (j + 1) high arr2" by blast
          have len2: "length arr2 = length arr" using s1 len1 by (simp add: sorts_range_def)
          have "\<exists>arr3 ev2. introsort_driver arr2 low j d = Some (arr3, ev2) \<and> sorts_range arr2 low j arr3"
            using less.prems jb jlt len2 by (intro less.hyps) auto
          then obtain arr3 ev2 where r2: "introsort_driver arr2 low j d = Some (arr3, ev2)"
            and s2: "sorts_range arr2 low j arr3" by blast
          have "sorts_range arr low high arr3"
            by (rule sorts_range_join'[OF less.prems(1) jb jlt less.prems(2) len1 ms1 fr1 lep gep s1 s2])
          moreover have "introsort_driver arr low high d = Some (arr3, Partition low high d # ev1 @ ev2)"
            using unf lh big dpos pv pl False r1 r2 by (simp add: USE_NINTHERS_def)
          ultimately show ?thesis by blast
        qed
      qed
    qed
  qed
qed

lemma sorts_whole:
  assumes "sorts_range A 0 (int (length A) - 1) B"
  shows "B = sort A"
proof -
  from assms have len: "length B = length A" and ms: "mset B = mset A"
    and o: "\<forall>a b. 0 \<le> int a \<and> a \<le> b \<and> int b \<le> int (length A) - 1 \<longrightarrow> B ! a \<le> B ! b"
    by (auto simp: sorts_range_def)
  have "sorted B"
    unfolding sorted_iff_nth_mono using o len by auto
  with ms show ?thesis by (simp add: properties_for_sort)
qed

lemma introsort_eq_sort: "introsort A = Some (sort A)"
proof -
  have "\<exists>arr' ev. introsort_driver A 0 (int (length A) - 1) ((bit_length (int (length A)) - 1) * 2) = Some (arr', ev) \<and>
      sorts_range A 0 (int (length A) - 1) arr'"
    by (intro introsort_driver_sorts) auto
  then obtain arr' ev where
    r: "introsort_driver A 0 (int (length A) - 1) ((bit_length (int (length A)) - 1) * 2) = Some (arr', ev)"
    and s: "sorts_range A 0 (int (length A) - 1) arr'" by blast
  have "arr' = sort A" using s by (rule sorts_whole)
  then show ?thesis using r by (simp add: introsort_def)
qed

text \<open>
  Claim C1. For every input list \<open>A\<close> of integers, \<^verbatim>\<open>introsort(A)\<close> returns a list
  that is a permutation of \<open>A\<close> (the same multiset of elements) and is non-decreasing:
  \<open>B[k] \<le> B[k+1]\<close> for every adjacent pair of indices.
\<close>

theorem introsort_sorted_permutation:
  "\<exists>B. introsort A = Some B \<and> mset B = mset A \<and> sorted B \<and>
       (\<forall>k. k + 1 < length B \<longrightarrow> B ! k \<le> B ! (k + 1))"
proof -
  have "sorted (sort A)" by simp
  then have "\<forall>k. k + 1 < length (sort A) \<longrightarrow> sort A ! k \<le> sort A ! (k + 1)"
    unfolding sorted_iff_nth_mono by (metis le_add1)
  then show ?thesis using introsort_eq_sort[of A] by simp
qed

theorem introsort_sorted_permutation_witness:
  "\<exists>B. introsort [5, 3, 8, 3, 9, 1] = Some B \<and> mset B = mset [5, 3, 8, 3, 9, 1] \<and> sorted B \<and>
       B ! 0 \<le> B ! 1 \<and> B ! 4 \<le> B ! 5"
proof -
  from introsort_sorted_permutation[of "[5, 3, 8, 3, 9, 1]"] obtain B where
    B: "introsort [5, 3, 8, 3, 9, 1] = Some B" "mset B = mset [5, 3, 8, 3, 9, 1]" "sorted B"
      "\<forall>k. k + 1 < length B \<longrightarrow> B ! k \<le> B ! (k + 1)"
    by blast
  have "length B = length [5, 3, 8, 3, 9, 1::int]" using B(2) by (rule mset_eq_length)
  then have "length B = 6" by simp
  then have "B ! 0 \<le> B ! 1" "B ! 4 \<le> B ! 5"
    using B(4)[rule_format, of 0] B(4)[rule_format, of 4] by simp_all
  then show ?thesis using B by blast
qed

text \<open>
  Claim C7. \<^verbatim>\<open>introsort\<close> terminates on every finite input list, lists of equal
  elements included: it returns a list for every input; on a list of \<open>n\<close> copies of one
  value it returns that list; an outer iteration of the partition loop moves both
  cursors strictly towards each other; and a driver step on a range of more than 16
  elements splits it at an index \<open>low \<le> s < high\<close>, so that both subranges are strictly
  smaller than the range.
\<close>

theorem introsort_terminates:
  "(\<exists>B. introsort A = Some B) \<and>
   introsort (replicate n x) = Some (replicate n x) \<and>
   (\<forall>i' ri j' rj. scan_up xs pivot (i + 1) = Some (i', ri) \<and>
        scan_down xs pivot (j - 1) = Some (j', rj) \<longrightarrow> i < i' \<and> j' < j) \<and>
   (0 \<le> low \<and> high < int (length arr) \<and> 16 < high - low + 1 \<longrightarrow>
      (\<exists>p arr1 s reads. median_of_ninthers arr low high = Some p \<and>
          partition_loop arr p (low - 1) (high + 1) = Some (arr1, s, reads) \<and>
          low \<le> s \<and> s < high))"
proof (intro conjI allI impI)
  show "\<exists>B. introsort A = Some B" by (simp add: introsort_eq_sort)
  have "sort (replicate n x) = replicate n x"
    by (intro sorted_sort_id) (simp add: sorted_replicate)
  then show "introsort (replicate n x) = Some (replicate n x)" by (simp add: introsort_eq_sort)
next
  fix i' ri j' rj
  assume "scan_up xs pivot (i + 1) = Some (i', ri) \<and> scan_down xs pivot (j - 1) = Some (j', rj)"
  then have "i + 1 \<le> i'" "j' \<le> j - 1"
    using scan_up_ge[of xs pivot "i + 1" i' ri] scan_down_le[of xs pivot "j - 1" j' rj] by auto
  then show "i < i'" "j' < j" by auto
next
  assume h: "0 \<le> low \<and> high < int (length arr) \<and> 16 < high - low + 1"
  then have "9 \<le> high - low + 1" by simp
  from ninther_partition[OF _ _ this, of arr] h
  show "\<exists>p arr1 s reads. median_of_ninthers arr low high = Some p \<and>
          partition_loop arr p (low - 1) (high + 1) = Some (arr1, s, reads) \<and>
          low \<le> s \<and> s < high"
    by blast
qed

theorem introsort_terminates_witness:
  "(\<exists>B. introsort [2, 2, 2] = Some B) \<and>
   introsort (replicate 20 7) = Some (replicate 20 7) \<and>
   (\<exists>i' ri j' rj. scan_up [1, 5] 3 (0 + 1) = Some (i', ri) \<and>
        scan_down [1, 5] 3 (2 - 1) = Some (j', rj) \<and> 0 < i' \<and> j' < 2) \<and>
   (\<exists>p arr1 s reads. median_of_ninthers (replicate 20 7) 0 19 = Some p \<and>
          partition_loop (replicate 20 7) p (0 - 1) (19 + 1) = Some (arr1, s, reads) \<and>
          0 \<le> s \<and> s < 19)"
proof -
  note t = introsort_terminates[where A = "[2, 2, 2]" and n = 20 and x = 7 and xs = "[1, 5]"
      and pivot = 3 and i = 0 and j = 2 and low = 0 and high = 19 and arr = "replicate 20 7"]
  have su: "scan_up [1, 5] 3 (0 + 1) = Some (1, [1])" by code_simp
  have sd: "scan_down [1, 5] 3 (2 - 1) = Some (0, [1, 0])" by code_simp
  from t have "\<forall>i' ri j' rj. scan_up [1, 5] 3 (0 + 1) = Some (i', ri) \<and>
        scan_down [1, 5] 3 (2 - 1) = Some (j', rj) \<longrightarrow> 0 < i' \<and> j' < 2"
    by blast
  with su sd have c: "\<exists>i' ri j' rj. scan_up [1, 5] 3 (0 + 1) = Some (i', ri) \<and>
        scan_down [1, 5] 3 (2 - 1) = Some (j', rj) \<and> 0 < i' \<and> j' < 2"
    by blast
  have "(0::int) \<le> 0 \<and> 19 < int (length (replicate 20 (7::int))) \<and> (16::int) < 19 - 0 + 1" by simp
  with t have d: "\<exists>p arr1 s reads. median_of_ninthers (replicate 20 7) 0 19 = Some p \<and>
          partition_loop (replicate 20 7) p (0 - 1) (19 + 1) = Some (arr1, s, reads) \<and>
          0 \<le> s \<and> s < 19"
    by blast
  from t c d show ?thesis by blast
qed

text \<open>
  Claim C4, as the code has it. The driver tests the size of the range before the depth
  budget. For valid bounds \<open>low < high\<close>: with a depth budget of 0, a range of more than
  16 elements is sorted by \<^verbatim>\<open>_heapsort_partial\<close> and by nothing else; a range of at most 16
  elements is sorted by \<^verbatim>\<open>_insertion_sort\<close> instead, whatever the budget \<open>d\<close> is (0
  included). In both cases the range ends up sorted and the rest of the list unchanged.
\<close>

theorem depth_zero_dispatch:
  assumes "0 \<le> low" "low < high" "high < int (length arr)"
  shows "(16 < high - low + 1 \<longrightarrow>
            (\<exists>arr'. heapsort_partial arr low high = Some arr' \<and>
               introsort_driver arr low high 0 = Some (arr', [HeapFallback low high]) \<and>
               sorts_range arr low high arr')) \<and>
         (high - low + 1 \<le> 16 \<longrightarrow>
            (\<exists>arr'. insertion_sort arr low high = Some arr' \<and>
               (\<forall>d. introsort_driver arr low high d = Some (arr', [InsertionSort low high])) \<and>
               sorts_range arr low high arr'))"
proof (intro conjI impI)
  have le: "low \<le> high" using assms(2) by simp
  {
    assume big: "16 < high - low + 1"
    from heapsort_partial_sorts[OF assms(1) le assms(3)] obtain arr' where
      h: "heapsort_partial arr low high = Some arr'" "sorts_range arr low high arr'" by blast
    then have "introsort_driver arr low high 0 = Some (arr', [HeapFallback low high])"
      using introsort_driver.simps[of arr low high 0] assms(2) big by simp
    with h show "\<exists>arr'. heapsort_partial arr low high = Some arr' \<and>
               introsort_driver arr low high 0 = Some (arr', [HeapFallback low high]) \<and>
               sorts_range arr low high arr'" by blast
  }
  {
    assume small: "high - low + 1 \<le> 16"
    from insertion_sort_sorts[OF assms(1) le assms(3)] obtain arr' where
      h: "insertion_sort arr low high = Some arr'" "sorts_range arr low high arr'" by blast
    have "\<forall>d. introsort_driver arr low high d = Some (arr', [InsertionSort low high])"
    proof
      fix d
      show "introsort_driver arr low high d = Some (arr', [InsertionSort low high])"
        using introsort_driver.simps[of arr low high d] assms(2) small h(1) by simp
    qed
    with h show "\<exists>arr'. insertion_sort arr low high = Some arr' \<and>
               (\<forall>d. introsort_driver arr low high d = Some (arr', [InsertionSort low high])) \<and>
               sorts_range arr low high arr'" by blast
  }
qed

theorem depth_zero_dispatch_witness:
  "(\<exists>arr'. heapsort_partial (replicate 20 7) 0 19 = Some arr' \<and>
      introsort_driver (replicate 20 7) 0 19 0 = Some (arr', [HeapFallback 0 19])) \<and>
   (\<exists>arr'. insertion_sort [2, 1] 0 1 = Some arr' \<and>
      introsort_driver [2, 1] 0 1 0 = Some (arr', [InsertionSort 0 1]) \<and>
      introsort_driver [2, 1] 0 1 5 = Some (arr', [InsertionSort 0 1]))"
proof -
  have a: "(0::int) \<le> 0" "(0::int) < 19" "19 < int (length (replicate 20 (7::int)))" by simp_all
  have b: "(0::int) \<le> 0" "(0::int) < 1" "1 < int (length [2, 1::int])" by simp_all
  from depth_zero_dispatch[OF a] have "\<exists>arr'. heapsort_partial (replicate 20 7) 0 19 = Some arr' \<and>
      introsort_driver (replicate 20 7) 0 19 0 = Some (arr', [HeapFallback 0 19])"
    by auto
  moreover from depth_zero_dispatch[OF b] have "\<exists>arr'. insertion_sort [2, 1] 0 1 = Some arr' \<and>
      introsort_driver [2, 1] 0 1 0 = Some (arr', [InsertionSort 0 1]) \<and>
      introsort_driver [2, 1] 0 1 5 = Some (arr', [InsertionSort 0 1])"
    by auto
  ultimately show ?thesis by blast
qed

text \<open>
  The claim as stated fails on a range of two elements with budget 0: the driver runs
  the insertion sort, and no heap fallback takes place.
\<close>

theorem depth_zero_small_range_counterexample:
  "introsort_driver [2, 1] 0 1 0 = Some ([1, 2], [InsertionSort 0 1])"
  by code_simp

text \<open>
  Claim C3, evaluated on the code. On the sorted list \<open>0, 1, ..., 30\<close> the top-level
  call hands the driver the budget 8. The first partition splits the range at index 12;
  the nested call on \<open>[0, 12]\<close> receives the budget 7, but the loop then continues on
  \<open>[13, 30]\<close> and partitions it with the budget still 8: only the nested call
  decrements the budget, the loop-back keeps it.
\<close>

theorem loop_back_keeps_budget:
  "(bit_length (int (length [0, 1, 2, 3, 4, 5, 6, 7, 8, 9, 10, 11, 12, 13, 14, 15, 16, 17, 18, 19,
       20, 21, 22, 23, 24, 25, 26, 27, 28, 29, 30 :: int])) - 1) * 2 = 8 \<and>
   introsort_driver [0, 1, 2, 3, 4, 5, 6, 7, 8, 9, 10, 11, 12, 13, 14, 15, 16, 17, 18, 19,
       20, 21, 22, 23, 24, 25, 26, 27, 28, 29, 30] 0 30 8 =
     Some ([0, 1, 2, 3, 4, 5, 6, 7, 8, 9, 10, 11, 12, 13, 14, 15, 16, 17, 18, 19,
       20, 21, 22, 23, 24, 25, 26, 27, 28, 29, 30],
       [Partition 0 30 8, InsertionSort 0 12, Partition 13 30 8,
        InsertionSort 13 21, InsertionSort 22 30])"
  by code_simp

section \<open>The baseline sorts\<close>

subsection \<open>Heap sort of the whole list\<close>

text \<open>
  \<^verbatim>\<open>_sift_down\<close> (lines 19-31) and \<^verbatim>\<open>heapsort\<close> (lines 33-40): \<open>larger_of\<close> is one of
  the two tests \<^verbatim>\<open>if child < n and arr[child] > arr[largest]\<close>, \<open>build_heap\<close> the loop over
  \<^verbatim>\<open>range((n >> 1) - 1, -1, -1)\<close> and \<open>pop_loop\<close> the loop over \<^verbatim>\<open>range(n - 1, 0, -1)\<close>.
  They are the routines of the range heap sort at offset 0, which is how they are
  verified.
\<close>

definition larger_of :: "int list \<Rightarrow> int \<Rightarrow> int \<Rightarrow> int \<Rightarrow> int option" where
  "larger_of arr n child largest =
     (if child < n
      then do { x \<leftarrow> py_get arr child; y \<leftarrow> py_get arr largest;
                Some (if x > y then child else largest) }
      else Some largest)"

partial_function (option) sift_down :: "int list \<Rightarrow> int \<Rightarrow> int \<Rightarrow> int list option" where
  "sift_down arr n i =
     do { let left = push_bit 1 i + 1;
          let right = left + 1;
          let largest = i;
          largest \<leftarrow> larger_of arr n left largest;
          largest \<leftarrow> larger_of arr n right largest;
          if largest = i then Some arr
          else do { arr' \<leftarrow> py_swap arr i largest;
                    sift_down arr' n largest } }"

declare sift_down.simps [code]

function build_heap :: "int list \<Rightarrow> int \<Rightarrow> int \<Rightarrow> int list option" where
  "build_heap arr n i =
     (if i > -1
      then do { arr' \<leftarrow> sift_down arr n i; build_heap arr' n (i - 1) }
      else Some arr)"
  by pat_completeness auto
termination
  by (relation "measure (\<lambda>(arr, n, i). nat (i + 1))") auto

declare build_heap.simps [simp del]

function pop_loop :: "int list \<Rightarrow> int \<Rightarrow> int list option" where
  "pop_loop arr end =
     (if end > 0
      then do { arr1 \<leftarrow> py_swap arr 0 end;
                arr2 \<leftarrow> sift_down arr1 end 0;
                pop_loop arr2 (end - 1) }
      else Some arr)"
  by pat_completeness auto
termination
  by (relation "measure (\<lambda>(arr, end). nat end)") auto

declare pop_loop.simps [simp del]

definition heapsort :: "int list \<Rightarrow> int list option" where
  "heapsort arr =
     do { let n = int (length arr);
          arr1 \<leftarrow> build_heap arr n (drop_bit 1 n - 1);
          pop_loop arr1 (n - 1) }"

lemma larger_of_eq: "larger_of arr n child m = larger_child arr 0 n child m"
  by (simp add: larger_of_def larger_child_def)

lemma sift_down_unfold:
  assumes "n \<le> int (length arr)" "0 \<le> i"
  shows "sift_down arr n i =
     (if largest_of arr 0 n i = i then Some arr
      else sift_down (arr[nat (0 + i) := el arr 0 (largest_of arr 0 n i),
                     nat (0 + largest_of arr 0 n i) := el arr 0 i]) n (largest_of arr 0 n i))"
proof -
  define m1 where "m1 = (if 2 * i + 1 < n \<and> el arr 0 (2 * i + 1) > el arr 0 i then 2 * i + 1 else i)"
  have c1: "larger_of arr n (2 * i + 1) i = Some m1"
    unfolding m1_def larger_of_eq using assms by (intro larger_child_valid) auto
  have m1n: "2 * i + 2 < n \<longrightarrow> m1 < n" "0 \<le> m1" using assms by (auto simp: m1_def)
  have c2: "larger_of arr n (2 * i + 1 + 1) m1 =
      Some (if 2 * i + 1 + 1 < n \<and> el arr 0 (2 * i + 1 + 1) > el arr 0 m1 then 2 * i + 1 + 1 else m1)"
    unfolding larger_of_eq using assms m1n by (intro larger_child_valid) auto
  have lo: "largest_of arr 0 n i = (if 2 * i + 2 < n \<and> el arr 0 (2 * i + 2) > el arr 0 m1 then 2 * i + 2 else m1)"
    by (simp add: largest_of_def m1_def Let_def)
  have c2': "larger_of arr n (2 * i + 1 + 1) m1 = Some (largest_of arr 0 n i)"
    using c2 lo by (simp add: add.assoc)
  show ?thesis
  proof (cases "largest_of arr 0 n i = i")
    case True
    then show ?thesis
      using c1 c2' by (subst sift_down.simps) (simp add: push_bit_eq_mult mult.commute)
  next
    case False
    then have "0 \<le> largest_of arr 0 n i" "largest_of arr 0 n i < n" "i < n"
      using largest_of_cases[of arr 0 n i] assms by auto
    then have "py_swap arr i (largest_of arr 0 n i) =
       Some (arr[nat (0 + i) := el arr 0 (largest_of arr 0 n i),
                     nat (0 + largest_of arr 0 n i) := el arr 0 i])"
      using assms by (simp add: py_swap_valid el_def)
    then show ?thesis
      using c1 c2' False by (subst sift_down.simps) (simp add: push_bit_eq_mult mult.commute)
  qed
qed

lemma sift_down_eq_sift:
  assumes "n \<le> int (length arr)" "0 \<le> i"
  shows "sift_down arr n i = sift arr 0 n i"
  using assms
proof (induction "nat (n - i)" arbitrary: arr i rule: less_induct)
  case less
  define m where "m = largest_of arr 0 n i"
  have u1: "sift_down arr n i =
     (if m = i then Some arr
      else sift_down (arr[nat (0 + i) := el arr 0 m, nat (0 + m) := el arr 0 i]) n m)"
    unfolding m_def using less.prems by (rule sift_down_unfold)
  have u2: "sift arr 0 n i =
     (if m = i then Some arr
      else sift (arr[nat (0 + i) := el arr 0 m, nat (0 + m) := el arr 0 i]) 0 n m)"
    unfolding m_def using less.prems by (intro sift_unfold) auto
  show ?case
  proof (cases "m = i")
    case True
    then show ?thesis using u1 u2 by simp
  next
    case False
    from largest_of_props[OF less.prems(2), of arr 0 n] False
    have ch: "m = 2 * i + 1 \<or> m = 2 * i + 2" and mn: "m < n" by (auto simp: m_def)
    have im: "i < m" using ch less.prems(2) by auto
    have "sift_down (arr[nat (0 + i) := el arr 0 m, nat (0 + m) := el arr 0 i]) n m =
          sift (arr[nat (0 + i) := el arr 0 m, nat (0 + m) := el arr 0 i]) 0 n m"
      using im mn less.prems by (intro less.hyps) auto
    then show ?thesis using u1 u2 False by simp
  qed
qed

lemma swap_root_pre:
  assumes "0 \<le> low" "low + e < int (length arr)" "0 < e" "heap_from arr low (e + 1) 0"
  shows "sift_pre (arr[nat low := el arr low e, nat (low + e) := el arr low 0]) low e 0 0"
proof -
  define arr1 where "arr1 = arr[nat low := el arr low e, nat (low + e) := el arr low 0]"
  have el1: "\<And>k. 0 \<le> k \<Longrightarrow> el arr1 low k = (if k = e then el arr low 0 else if k = 0 then el arr low e else el arr low k)"
    unfolding arr1_def
    using el_swap[of low 0 e arr _ "el arr low e" "el arr low 0"] assms(1-3) by simp
  have pre_a: "\<And>p. 0 \<le> p \<and> p \<noteq> 0 \<Longrightarrow> edge_ok arr1 low e p"
  proof -
    fix p :: int assume p: "0 \<le> p \<and> p \<noteq> 0"
    have "edge_ok arr low (e + 1) p" using assms(4) p by (simp add: heap_from_def)
    then show "edge_ok arr1 low e p"
      using p unfolding edge_ok_def by (simp add: el1)
  qed
  have pre_b: "\<And>q::int. 0 \<le> q \<and> (0 = 2 * q + 1 \<or> 0 = 2 * q + 2) \<Longrightarrow> False"
    by linarith
  have "sift_pre arr1 low e 0 0"
    unfolding sift_pre_def using pre_a pre_b by blast
  then show ?thesis by (simp add: arr1_def)
qed

lemma build_heap_eq:
  assumes "n \<le> int (length arr)" "-1 \<le> i" "heap_from arr 0 n (i + 1)"
  shows "build_heap arr n i = heapify_loop arr 0 n i"
  using assms
proof (induction arr n i rule: build_heap.induct)
  case (1 arr n i)
  show ?case
  proof (cases "i > -1")
    case False
    then show ?thesis
      by (subst build_heap.simps, subst heapify_loop.simps) simp
  next
    case True
    have e: "sift_down arr n i = sift arr 0 n i"
      using "1.prems" True by (intro sift_down_eq_sift) auto
    have pre: "sift_pre arr 0 n i i"
      using "1.prems"(3) True unfolding sift_pre_def heap_from_def by auto
    have "\<exists>arr1. sift arr 0 n i = Some arr1 \<and> length arr1 = length arr \<and> mset arr1 = mset arr \<and>
           (\<forall>k. int k < 0 + i \<or> 0 + n \<le> int k \<longrightarrow> arr1 ! k = arr ! k) \<and>
           heap_from arr1 0 n i"
      using "1.prems" True pre by (intro sift_spec) auto
    then obtain arr1 where s: "sift arr 0 n i = Some arr1"
      and p1: "length arr1 = length arr" "heap_from arr1 0 n i"
      by blast
    have "build_heap arr1 n (i - 1) = heapify_loop arr1 0 n (i - 1)"
      using True e s "1.prems" p1 by (intro "1.IH") auto
    then show ?thesis
      using True e s by (subst build_heap.simps, subst heapify_loop.simps) simp
  qed
qed

lemma pop_loop_eq:
  assumes "e < int (length arr)" "-1 \<le> e" "heap_from arr 0 (e + 1) 0"
  shows "pop_loop arr e = extract_loop arr 0 e"
  using assms
proof (induction arr e rule: pop_loop.induct)
  case (1 arr e)
  show ?case
  proof (cases "e > 0")
    case False
    then show ?thesis
      by (subst pop_loop.simps, subst extract_loop.simps) simp
  next
    case True
    define arr1 where "arr1 = arr[nat 0 := el arr 0 e, nat (0 + e) := el arr 0 0]"
    have ne: "arr \<noteq> []" using "1.prems"(1) True by auto
    have sw: "py_swap arr 0 e = Some arr1"
      using py_swap_valid[of 0 arr e] "1.prems"(1) True ne by (simp add: arr1_def el_def)
    have len1: "length arr1 = length arr" by (simp add: arr1_def)
    have pre: "sift_pre arr1 0 e 0 0"
      unfolding arr1_def using "1.prems" True by (intro swap_root_pre) auto
    have eq: "sift_down arr1 e 0 = sift arr1 0 e 0"
      using "1.prems"(1) True len1 by (intro sift_down_eq_sift) auto
    have "\<exists>arr2. sift arr1 0 e 0 = Some arr2 \<and> length arr2 = length arr1 \<and> mset arr2 = mset arr1 \<and>
           (\<forall>k. int k < 0 + 0 \<or> 0 + e \<le> int k \<longrightarrow> arr2 ! k = arr1 ! k) \<and>
           heap_from arr2 0 e 0"
      using "1.prems"(1) len1 pre by (intro sift_spec) auto
    then obtain arr2 where s: "sift arr1 0 e 0 = Some arr2"
      and p2: "length arr2 = length arr1" "heap_from arr2 0 e 0"
      by blast
    have "pop_loop arr2 (e - 1) = extract_loop arr2 0 (e - 1)"
      using True sw eq s "1.prems" p2 len1 by (intro "1.IH") auto
    then show ?thesis
      using True sw eq s by (subst pop_loop.simps, subst extract_loop.simps) simp
  qed
qed

lemma heapsort_eq_sort: "heapsort A = Some (sort A)"
proof (cases "A = []")
  case True
  have "build_heap [] 0 (- 1) = Some []" by (subst build_heap.simps) simp
  moreover have "pop_loop [] (- 1) = Some []" by (subst pop_loop.simps) simp
  ultimately show ?thesis using True by (simp add: heapsort_def drop_bit_eq_div)
next
  case False
  define n where "n = int (length A)"
  have n: "1 \<le> n" using False by (cases A) (auto simp: n_def)
  have hv: "heap_from A 0 n (n div 2 - 1 + 1)"
    unfolding heap_from_def edge_ok_def by auto
  have b: "build_heap A n (n div 2 - 1) = heapify_loop A 0 n (n div 2 - 1)"
    using n hv by (intro build_heap_eq) (auto simp: n_def)
  have "\<exists>arr1. heapify_loop A 0 n (n div 2 - 1) = Some arr1 \<and> length arr1 = length A \<and> mset arr1 = mset A \<and>
           (\<forall>k. int k < 0 \<or> 0 + n \<le> int k \<longrightarrow> arr1 ! k = A ! k) \<and>
           heap_from arr1 0 n 0"
    using n hv by (intro heapify_loop_spec) (auto simp: n_def)
  then obtain arr1 where h: "heapify_loop A 0 n (n div 2 - 1) = Some arr1"
    and p1: "length arr1 = length A" "heap_from arr1 0 n 0" by blast
  have p: "pop_loop arr1 (n - 1) = extract_loop arr1 0 (n - 1)"
    using n p1 by (intro pop_loop_eq) (auto simp: n_def)
  have "heapsort A = heapsort_partial A 0 (n - 1)"
    using b h p by (simp add: heapsort_def heapsort_partial_def n_def[symmetric] drop_bit_eq_div)
  moreover have "\<exists>B. heapsort_partial A 0 (n - 1) = Some B \<and> sorts_range A 0 (n - 1) B"
    using n by (intro heapsort_partial_sorts) (auto simp: n_def)
  ultimately obtain B where "heapsort A = Some B" "sorts_range A 0 (int (length A) - 1) B"
    by (auto simp: n_def)
  then show ?thesis using sorts_whole[of A B] by simp
qed

subsection \<open>Quicksort\<close>

text \<open>
  \<^verbatim>\<open>quicksort_hoare\<close> (lines 60-71). The parameter \<^verbatim>\<open>high\<close> defaults to \<^verbatim>\<open>None\<close>, which
  stands for the last index. An iteration of \<^verbatim>\<open>while low < high\<close> is a call with the
  current bounds; the nested call of the source is the first recursive call, the
  loop-back the second.
\<close>

partial_function (option) quicksort_hoare ::
  "int list \<Rightarrow> int \<Rightarrow> int option \<Rightarrow> int list option" where
  "quicksort_hoare arr low high_arg =
     (let high = (case high_arg of None \<Rightarrow> int (length arr) - 1 | Some h \<Rightarrow> h) in
      if low < high
      then do { (arr1, p) \<leftarrow> hoare_partition arr low high;
                if p - low < high - p
                then do { arr2 \<leftarrow> quicksort_hoare arr1 low (Some p);
                          quicksort_hoare arr2 (p + 1) (Some high) }
                else do { arr2 \<leftarrow> quicksort_hoare arr1 (p + 1) (Some high);
                          quicksort_hoare arr2 low (Some p) } }
      else Some arr)"

declare quicksort_hoare.simps [code]

lemma hoare_partition_full:
  assumes "0 \<le> low" "low < high" "high < int (length arr)"
  shows "\<exists>arr1 j. hoare_partition arr low high = Some (arr1, j) \<and>
     length arr1 = length arr \<and> mset arr1 = mset arr \<and>
     (\<forall>n. int n < low \<or> high < int n \<longrightarrow> arr1 ! n = arr ! n) \<and>
     low \<le> j \<and> j < high \<and>
     (\<forall>n. low \<le> int n \<and> int n \<le> j \<longrightarrow> arr1 ! n \<le> arr ! nat ((low + high) div 2)) \<and>
     (\<forall>n. j < int n \<and> int n \<le> high \<longrightarrow> arr ! nat ((low + high) div 2) \<le> arr1 ! n)"
proof -
  let ?m = "(low + high) div 2"
  let ?p = "arr ! nat ?m"
  have le: "low \<le> high" using assms(2) by simp
  have m: "low \<le> ?m" "?m < high" using assms by auto
  then have g: "py_get arr (drop_bit 1 (low + high)) = Some ?p"
    using assms by (simp add: drop_bit_eq_div py_get_valid)
  have occ: "\<exists>k. low \<le> k \<and> k \<le> high \<and> arr ! nat k = ?p"
    using m by (intro exI[of _ ?m]) simp
  from partition_range[OF assms(1) le assms(3) occ] obtain arr1 j reads where
    pl: "partition_loop arr ?p (low - 1) (high + 1) = Some (arr1, j, reads)"
    and len1: "length arr1 = length arr" and ms1: "mset arr1 = mset arr"
    and fr1: "\<forall>n. int n < low \<or> high < int n \<longrightarrow> arr1 ! n = arr ! n"
    and jb: "low \<le> j" "j \<le> high"
    and lep: "\<forall>n. low \<le> int n \<and> int n \<le> j \<longrightarrow> arr1 ! n \<le> ?p"
    and gep: "\<forall>n. j < int n \<and> int n \<le> high \<longrightarrow> ?p \<le> arr1 ! n"
    and deg: "j = high \<longrightarrow> (\<forall>n. low \<le> int n \<and> int n < high \<longrightarrow> arr ! n < ?p)"
    by blast
  have jlt: "j < high"
  proof (rule ccontr)
    assume "\<not> j < high"
    then have a: "\<forall>n. low \<le> int n \<and> int n < high \<longrightarrow> arr ! n < ?p" using jb deg by simp
    have "arr ! nat ?m < ?p" using m assms(1) by (intro a[rule_format]) simp
    then show False by simp
  qed
  have "hoare_partition arr low high = Some (arr1, j)"
    using g pl by (simp add: hoare_partition_def)
  then show ?thesis using len1 ms1 fr1 jb(1) jlt lep gep by blast
qed

lemma quicksort_hoare_sorts:
  assumes "0 \<le> low" "high < int (length arr)"
  shows "\<exists>arr'. quicksort_hoare arr low (Some high) = Some arr' \<and> sorts_range arr low high arr'"
  using assms
proof (induction "nat (high - low)" arbitrary: arr low high rule: less_induct)
  case less
  note unf = quicksort_hoare.simps[of arr low "Some high"]
  show ?case
  proof (cases "low < high")
    case False
    then have "quicksort_hoare arr low (Some high) = Some arr" using unf by simp
    moreover have "sorts_range arr low high arr" using False by (intro sorts_range_trivial) simp
    ultimately show ?thesis by blast
  next
    case True
    note lh = True
    from hoare_partition_full[OF less.prems(1) lh less.prems(2)] obtain arr1 j where
      hp: "hoare_partition arr low high = Some (arr1, j)"
      and len1: "length arr1 = length arr" and ms1: "mset arr1 = mset arr"
      and fr1: "\<forall>n. int n < low \<or> high < int n \<longrightarrow> arr1 ! n = arr ! n"
      and jb: "low \<le> j" and jlt: "j < high"
      and lep: "\<forall>n. low \<le> int n \<and> int n \<le> j \<longrightarrow> arr1 ! n \<le> arr ! nat ((low + high) div 2)"
      and gep: "\<forall>n. j < int n \<and> int n \<le> high \<longrightarrow> arr ! nat ((low + high) div 2) \<le> arr1 ! n"
      by blast
    show ?thesis
    proof (cases "j - low < high - j")
      case True
      have "\<exists>arr2. quicksort_hoare arr1 low (Some j) = Some arr2 \<and> sorts_range arr1 low j arr2"
        using less.prems jb jlt len1 by (intro less.hyps) auto
      then obtain arr2 where r1: "quicksort_hoare arr1 low (Some j) = Some arr2"
        and s1: "sorts_range arr1 low j arr2" by blast
      have len2: "length arr2 = length arr" using s1 len1 by (simp add: sorts_range_def)
      have "\<exists>arr3. quicksort_hoare arr2 (j + 1) (Some high) = Some arr3 \<and> sorts_range arr2 (j + 1) high arr3"
        using less.prems jb jlt len2 by (intro less.hyps) auto
      then obtain arr3 where r2: "quicksort_hoare arr2 (j + 1) (Some high) = Some arr3"
        and s2: "sorts_range arr2 (j + 1) high arr3" by blast
      have "sorts_range arr low high arr3"
        by (rule sorts_range_join[OF less.prems(1) jb jlt less.prems(2) len1 ms1 fr1 lep gep s1 s2])
      moreover have "quicksort_hoare arr low (Some high) = Some arr3"
        using unf lh hp True r1 r2 by simp
      ultimately show ?thesis by blast
    next
      case False
      have "\<exists>arr2. quicksort_hoare arr1 (j + 1) (Some high) = Some arr2 \<and> sorts_range arr1 (j + 1) high arr2"
        using less.prems jb jlt len1 by (intro less.hyps) auto
      then obtain arr2 where r1: "quicksort_hoare arr1 (j + 1) (Some high) = Some arr2"
        and s1: "sorts_range arr1 (j + 1) high arr2" by blast
      have len2: "length arr2 = length arr" using s1 len1 by (simp add: sorts_range_def)
      have "\<exists>arr3. quicksort_hoare arr2 low (Some j) = Some arr3 \<and> sorts_range arr2 low j arr3"
        using less.prems jb jlt len2 by (intro less.hyps) auto
      then obtain arr3 where r2: "quicksort_hoare arr2 low (Some j) = Some arr3"
        and s2: "sorts_range arr2 low j arr3" by blast
      have "sorts_range arr low high arr3"
        by (rule sorts_range_join'[OF less.prems(1) jb jlt less.prems(2) len1 ms1 fr1 lep gep s1 s2])
      moreover have "quicksort_hoare arr low (Some high) = Some arr3"
        using unf lh hp False r1 r2 by simp
      ultimately show ?thesis by blast
    qed
  qed
qed

lemma quicksort_hoare_eq_sort: "quicksort_hoare A 0 None = Some (sort A)"
proof -
  have "\<exists>arr'. quicksort_hoare A 0 (Some (int (length A) - 1)) = Some arr' \<and>
      sorts_range A 0 (int (length A) - 1) arr'"
    by (intro quicksort_hoare_sorts) auto
  then obtain arr' where r: "quicksort_hoare A 0 (Some (int (length A) - 1)) = Some arr'"
    and s: "sorts_range A 0 (int (length A) - 1) arr'" by blast
  have "quicksort_hoare A 0 None = quicksort_hoare A 0 (Some (int (length A) - 1))"
    by (subst quicksort_hoare.simps, subst (2) quicksort_hoare.simps) simp
  then show ?thesis using r sorts_whole[OF s] by simp
qed

subsection \<open>Merge sort, top-down\<close>

text \<open>
  \<^verbatim>\<open>_merge\<close> (lines 184-196) and \<^verbatim>\<open>mergesort\<close> (lines 176-182) as functions of the
  contents of their arguments. \<open>merge_loop\<close> is the \<^verbatim>\<open>while\<close> loop, which reads
  \<^verbatim>\<open>left[i]\<close> and \<^verbatim>\<open>right[j]\<close> only below the lengths; \<open>merge\<close> appends the two
  remainders. \<^verbatim>\<open>arr[:mid]\<close> and \<^verbatim>\<open>arr[mid:]\<close> are \<open>take\<close> and \<open>drop\<close>.
\<close>

function merge_loop ::
  "int list \<Rightarrow> int list \<Rightarrow> nat \<Rightarrow> nat \<Rightarrow> int list \<Rightarrow> nat \<times> nat \<times> int list" where
  "merge_loop left right i j merged =
     (if i < length left \<and> j < length right
      then if left ! i < right ! j
           then merge_loop left right (i + 1) j (merged @ [left ! i])
           else merge_loop left right i (j + 1) (merged @ [right ! j])
      else (i, j, merged))"
  by pat_completeness auto
termination
  by (relation "measure (\<lambda>(left, right, i, j, merged). (length left - i) + (length right - j))") auto

declare merge_loop.simps [simp del]

definition merge :: "int list \<Rightarrow> int list \<Rightarrow> int list" where
  "merge left right =
     (let (i, j, merged) = merge_loop left right 0 0 []
      in merged @ drop i left @ drop j right)"

function mergesort :: "int list \<Rightarrow> int list" where
  "mergesort arr =
     (if length arr \<le> 1 then arr
      else let mid = length arr div 2;
               left = mergesort (take mid arr);
               right = mergesort (drop mid arr)
           in merge left right)"
  by pat_completeness auto
termination
  by (relation "measure length") auto

declare mergesort.simps [simp del]

text \<open>The list \<open>merge\<close> builds from a state of its loop (used in the proofs only).\<close>

definition merge_rest :: "int list \<Rightarrow> int list \<Rightarrow> nat \<times> nat \<times> int list \<Rightarrow> int list" where
  "merge_rest left right r = (case r of (i, j, merged) \<Rightarrow> merged @ drop i left @ drop j right)"

lemma merge_loop_mset:
  "mset (merge_rest left right (merge_loop left right i j merged)) =
     mset merged + mset (drop i left) + mset (drop j right)"
proof (induction left right i j merged rule: merge_loop.induct)
  case (1 left right i j merged)
  note u = merge_loop.simps[of left right i j merged]
  show ?case
  proof (cases "i < length left \<and> j < length right")
    case False
    have "merge_loop left right i j merged = (i, j, merged)"
      by (subst u) (use False in auto)
    moreover have "drop i left = [] \<or> drop j right = []" using False by auto
    ultimately show ?thesis by (auto simp: merge_rest_def)
  next
    case True
    note t = True
    show ?thesis
    proof (cases "left ! i < right ! j")
      case True
      have "drop i left = left ! i # drop (i + 1) left" using t by (simp add: Cons_nth_drop_Suc)
      moreover have "merge_loop left right i j merged = merge_loop left right (i + 1) j (merged @ [left ! i])"
        using u t True by simp
      ultimately show ?thesis using "1.IH"(1)[OF t True] by simp
    next
      case False
      have "drop j right = right ! j # drop (j + 1) right" using t by (simp add: Cons_nth_drop_Suc)
      moreover have "merge_loop left right i j merged = merge_loop left right i (j + 1) (merged @ [right ! j])"
        using u t False by simp
      ultimately show ?thesis using "1.IH"(2)[OF t False] by simp
    qed
  qed
qed

lemma merge_loop_sorted:
  assumes "sorted left" "sorted right" "sorted merged"
    and "\<forall>x \<in> set merged. \<forall>y \<in> set (drop i left) \<union> set (drop j right). x \<le> y"
  shows "sorted (merge_rest left right (merge_loop left right i j merged))"
  using assms
proof (induction left right i j merged rule: merge_loop.induct)
  case (1 left right i j merged)
  note bnd = \<open>\<forall>x \<in> set merged. \<forall>y \<in> set (drop i left) \<union> set (drop j right). x \<le> y\<close>
  note u = merge_loop.simps[of left right i j merged]
  have sl: "sorted (drop i left)" and sr: "sorted (drop j right)"
    using "1.prems"(1,2) by (simp_all add: sorted_wrt_drop)
  show ?case
  proof (cases "i < length left \<and> j < length right")
    case False
    then have "drop i left = [] \<or> drop j right = []" by auto
    then have "sorted (merged @ drop i left @ drop j right)"
      using "1.prems"(3) sl sr bnd by (auto simp: sorted_append)
    moreover have "merge_loop left right i j merged = (i, j, merged)"
      by (subst u) (use False in auto)
    ultimately show ?thesis by (simp add: merge_rest_def)
  next
    case True
    note t = True
    have dl: "drop i left = left ! i # drop (i + 1) left" using t by (simp add: Cons_nth_drop_Suc)
    have dr: "drop j right = right ! j # drop (j + 1) right" using t by (simp add: Cons_nth_drop_Suc)
    have hl: "\<forall>y \<in> set (drop (i + 1) left). left ! i \<le> y" using sl dl by auto
    have hr: "\<forall>y \<in> set (drop (j + 1) right). right ! j \<le> y" using sr dr by auto
    show ?thesis
    proof (cases "left ! i < right ! j")
      case True
      have s: "sorted (merged @ [left ! i])"
        using "1.prems"(3) bnd dl by (auto simp: sorted_append)
      have b: "\<forall>x \<in> set (merged @ [left ! i]). \<forall>y \<in> set (drop (i + 1) left) \<union> set (drop j right). x \<le> y"
      proof (intro ballI)
        fix x y assume x: "x \<in> set (merged @ [left ! i])"
          and y: "y \<in> set (drop (i + 1) left) \<union> set (drop j right)"
        have y': "y \<in> set (drop i left) \<union> set (drop j right)" using y dl by auto
        show "x \<le> y"
        proof (cases "x \<in> set merged")
          case True then show ?thesis using bnd y' by blast
        next
          case False
          then have xe: "x = left ! i" using x by simp
          from y show ?thesis
          proof
            assume "y \<in> set (drop (i + 1) left)" then show ?thesis using hl xe by simp
          next
            assume "y \<in> set (drop j right)"
            then have "y = right ! j \<or> y \<in> set (drop (j + 1) right)" using dr by auto
            then show ?thesis using hr True xe by auto
          qed
        qed
      qed
      have "merge_loop left right i j merged = merge_loop left right (i + 1) j (merged @ [left ! i])"
        using u t True by simp
      then show ?thesis
        using "1.IH"(1)[OF t True "1.prems"(1,2) s b] by simp
    next
      case False
      have s: "sorted (merged @ [right ! j])"
        using "1.prems"(3) bnd dr by (auto simp: sorted_append)
      have b: "\<forall>x \<in> set (merged @ [right ! j]). \<forall>y \<in> set (drop i left) \<union> set (drop (j + 1) right). x \<le> y"
      proof (intro ballI)
        fix x y assume x: "x \<in> set (merged @ [right ! j])"
          and y: "y \<in> set (drop i left) \<union> set (drop (j + 1) right)"
        have y': "y \<in> set (drop i left) \<union> set (drop j right)" using y dr by auto
        show "x \<le> y"
        proof (cases "x \<in> set merged")
          case True then show ?thesis using bnd y' by blast
        next
          case nm: False
          then have xe: "x = right ! j" using x by simp
          from y show ?thesis
          proof
            assume "y \<in> set (drop (j + 1) right)" then show ?thesis using hr xe by simp
          next
            assume "y \<in> set (drop i left)"
            then have "y = left ! i \<or> y \<in> set (drop (i + 1) left)" using dl by auto
            then show ?thesis using hl False xe by auto
          qed
        qed
      qed
      have "merge_loop left right i j merged = merge_loop left right i (j + 1) (merged @ [right ! j])"
        using u t False by simp
      then show ?thesis
        using "1.IH"(2)[OF t False "1.prems"(1,2) s b] by simp
    qed
  qed
qed

lemma merge_eq: "merge left right = merge_rest left right (merge_loop left right 0 0 [])"
  by (simp add: merge_def merge_rest_def split: prod.splits)

lemma mset_merge: "mset (merge left right) = mset left + mset right"
  unfolding merge_eq by (simp add: merge_loop_mset)

lemma sorted_merge: "sorted left \<Longrightarrow> sorted right \<Longrightarrow> sorted (merge left right)"
  unfolding merge_eq by (intro merge_loop_sorted) auto

lemma length_merge: "length (merge left right) = length left + length right"
proof -
  have "size (mset (merge left right)) = size (mset left + mset right)"
    by (simp only: mset_merge)
  then show ?thesis by simp
qed

lemma mergesort_props: "mset (mergesort arr) = mset arr \<and> sorted (mergesort arr)"
proof (induction arr rule: mergesort.induct)
  case (1 arr)
  show ?case
  proof (cases "length arr \<le> 1")
    case True
    then have "sorted arr" by (cases arr) auto
    then show ?thesis using True by (subst mergesort.simps, subst mergesort.simps) simp
  next
    case False
    let ?mid = "length arr div 2"
    from "1.IH"(1)[OF False refl] have l: "mset (mergesort (take ?mid arr)) = mset (take ?mid arr)"
      "sorted (mergesort (take ?mid arr))" by auto
    from "1.IH"(2)[OF False refl refl] have r: "mset (mergesort (drop ?mid arr)) = mset (drop ?mid arr)"
      "sorted (mergesort (drop ?mid arr))" by auto
    have e: "mergesort arr = merge (mergesort (take ?mid arr)) (mergesort (drop ?mid arr))"
      using False by (subst mergesort.simps) (simp add: Let_def)
    have "mset (take ?mid arr) + mset (drop ?mid arr) = mset arr"
      by (metis append_take_drop_id mset_append)
    then show ?thesis using e l r by (simp add: mset_merge sorted_merge)
  qed
qed

lemma mergesort_eq_sort: "mergesort A = sort A"
  using mergesort_props[of A] properties_for_sort[of "mergesort A" A] by simp

subsection \<open>Merge sort, bottom-up\<close>

text \<open>
  \<^verbatim>\<open>mergesort_bottom_up\<close> (lines 198-208). \<open>merge_pass\<close> is the loop over
  \<^verbatim>\<open>range(0, n, 2 * width)\<close>, which raises ValueError (the result \<open>None\<close>) for a step of 0;
  the slice assignment \<^verbatim>\<open>result[i:i+2*width] = ...\<close> replaces that slice. \<open>width_loop\<close> is
  the loop \<^verbatim>\<open>while width < n\<close>. The copy \<^verbatim>\<open>arr[:]\<close> has the contents of \<open>arr\<close>.
\<close>

function merge_pass :: "int list \<Rightarrow> nat \<Rightarrow> nat \<Rightarrow> nat \<Rightarrow> int list option" where
  "merge_pass result n width i =
     (if 2 * width = 0 then None
      else if i < n
      then let left = py_slice result i (i + width);
               right = py_slice result (i + width) (i + 2 * width)
           in merge_pass (take i result @ merge left right @ drop (i + 2 * width) result)
                n width (i + 2 * width)
      else Some result)"
  by pat_completeness auto
termination
  by (relation "measure (\<lambda>(result, n, width, i). n - i)") auto

declare merge_pass.simps [simp del]

lemma merge_pass_width: "merge_pass result n width i = Some r \<Longrightarrow> 0 < width"
  by (subst (asm) merge_pass.simps) (auto split: if_splits)

function width_loop :: "int list \<Rightarrow> nat \<Rightarrow> nat \<Rightarrow> int list option" where
  "width_loop result n width =
     (if width < n
      then do { result' \<leftarrow> merge_pass result n width 0;
                width_loop result' n (width * 2) }
      else Some result)"
  by pat_completeness auto
termination
proof (relation "measure (\<lambda>(result, n, width). n - width)", goal_cases)
  case 1
  show ?case by simp
next
  case (2 result n width r)
  then have "0 < width" using merge_pass_width by blast
  then show ?case using 2 by auto
qed

declare width_loop.simps [simp del]

definition mergesort_bottom_up :: "int list \<Rightarrow> int list option" where
  "mergesort_bottom_up arr =
     (let n = length arr; width = 1; result = arr
      in width_loop result n width)"

text \<open>
  The invariant of the passes (a predicate of the proof): every run of \<open>w\<close> consecutive
  elements that starts at a multiple of \<open>w\<close> is sorted.
\<close>

definition runs_sorted :: "nat \<Rightarrow> int list \<Rightarrow> bool" where
  "runs_sorted w xs \<longleftrightarrow> (\<forall>k. sorted (take w (drop (k * w) xs)))"

lemma runs_sorted_append:
  assumes "length P = c * W" "runs_sorted W P" "sorted M" "length M \<le> W"
  shows "runs_sorted W (P @ M)"
  unfolding runs_sorted_def
proof
  fix k
  show "sorted (take W (drop (k * W) (P @ M)))"
  proof (cases "k < c")
    case True
    then have "Suc k \<le> c" by simp
    then have "Suc k * W \<le> c * W" by (rule mult_le_mono1)
    then have "k * W + W \<le> length P" using assms(1) by simp
    then have e: "take W (drop (k * W) (P @ M)) = take W (drop (k * W) P)" by simp
    have "sorted (take W (drop (k * W) P))" using assms(2) unfolding runs_sorted_def by blast
    then show ?thesis by (simp only: e)
  next
    case False
    then have "c * W \<le> k * W" by (intro mult_le_mono1) simp
    then have d: "drop (k * W) (P @ M) = drop (k * W - c * W) M" using assms(1) by simp
    have "sorted (drop (k * W - c * W) M)" using assms(3) by (simp add: sorted_wrt_drop)
    then have "sorted (take W (drop (k * W - c * W) M))" by (simp add: sorted_wrt_take)
    then show ?thesis using d by simp
  qed
qed

lemma merge_pass_spec:
  assumes "0 < w" "length result = n" "i = c * (2 * w)"
    and "runs_sorted (2 * w) (take i result)" "runs_sorted w (drop i result)"
  shows "\<exists>r. merge_pass result n w i = Some r \<and> length r = n \<and> mset r = mset result \<and>
           runs_sorted (2 * w) r"
  using assms
proof (induction result n w i arbitrary: c rule: merge_pass.induct)
  case (1 result n w i)
  note u = merge_pass.simps[of result n w i]
  show ?case
  proof (cases "i < n")
    case False
    then have "merge_pass result n w i = Some result" using u "1.prems"(1) by simp
    moreover have "take i result = result" using False "1.prems"(2) by simp
    ultimately show ?thesis using "1.prems" by simp
  next
    case True
    let ?S = "drop i result"
    let ?A = "py_slice result i (i + w)" and ?B = "py_slice result (i + w) (i + 2 * w)"
    let ?M = "merge ?A ?B"
    let ?R = "drop (i + 2 * w) result"
    let ?res = "take i result @ ?M @ ?R"
    have A: "?A = take w ?S" by (simp add: py_slice_def)
    have B: "?B = take w (drop w ?S)" by (simp add: py_slice_def add.commute)
    have AB: "?A @ ?B = take (2 * w) ?S"
      unfolding A B by (simp add: take_add mult_2)
    have sA: "sorted ?A"
      using "1.prems"(5) unfolding A runs_sorted_def by (metis drop0 mult_zero_left)
    have sB: "sorted ?B"
      using "1.prems"(5) unfolding B runs_sorted_def by (metis mult_1)
    have sM: "sorted ?M" using sA sB by (rule sorted_merge)
    have mM: "mset ?M = mset (take (2 * w) ?S)"
      using AB by (metis mset_merge mset_append)
    have lM: "length ?M = length (take (2 * w) ?S)"
      using mM by (rule mset_eq_length)
    have lM2: "length ?M \<le> 2 * w" using lM by simp
    have R: "?R = drop (2 * w) ?S" by (simp add: add.commute)
    have ms: "mset ?res = mset result"
    proof -
      have "mset ?res = mset (take i result) + (mset (take (2 * w) ?S) + mset (drop (2 * w) ?S))"
        using mM R by simp
      also have "\<dots> = mset (take i result) + mset ?S"
        by (metis append_take_drop_id mset_append)
      also have "\<dots> = mset result"
        by (metis append_take_drop_id mset_append)
      finally show ?thesis .
    qed
    have len: "length ?res = n" using ms "1.prems"(2) by (metis mset_eq_length)
    have li: "length (take i result) = i" using True "1.prems"(2) by simp
    have full: "length ?M < 2 * w \<Longrightarrow> ?R = []"
    proof -
      assume "length ?M < 2 * w"
      then have "length ?S < 2 * w" using lM by simp
      then show "?R = []" unfolding R by simp
    qed
    have tk: "take (i + 2 * w) ?res = take i result @ ?M"
    proof (cases "length ?M < 2 * w")
      case True
      then show ?thesis using full li by simp
    next
      case False
      then have "length ?M = 2 * w" using lM2 by simp
      then show ?thesis using li by simp
    qed
    have dr: "drop (i + 2 * w) ?res = ?R"
    proof (cases "length ?M < 2 * w")
      case True
      then show ?thesis using full li by simp
    next
      case False
      then have "length ?M = 2 * w" using lM2 by simp
      then show ?thesis using li by simp
    qed
    have rs1: "runs_sorted (2 * w) (take (i + 2 * w) ?res)"
      unfolding tk using li "1.prems"(3,4) sM lM2 by (intro runs_sorted_append[where c = c]) auto
    have rs2: "runs_sorted w (drop (i + 2 * w) ?res)"
    proof -
      have "runs_sorted w (drop (2 * w) ?S)"
        unfolding runs_sorted_def
      proof
        fix k
        have a: "k * w + 2 * w = (k + 2) * w" by (simp add: add_mult_distrib)
        have b: "drop (k * w) (drop (2 * w) ?S) = drop (k * w + 2 * w) ?S"
          by (rule drop_drop)
        have "drop (k * w) (drop (2 * w) ?S) = drop ((k + 2) * w) ?S"
          by (rule b[unfolded a])
        then show "sorted (take w (drop (k * w) (drop (2 * w) ?S)))"
          using "1.prems"(5) unfolding runs_sorted_def by metis
      qed
      moreover have "drop (i + 2 * w) ?res = drop (2 * w) ?S" using dr R by (rule trans)
      ultimately show ?thesis by (simp only:)
    qed
    have w2: "2 * w \<noteq> 0" using "1.prems"(1) by simp
    have "\<exists>r. merge_pass ?res n w (i + 2 * w) = Some r \<and> length r = n \<and> mset r = mset ?res \<and>
           runs_sorted (2 * w) r"
      using "1.prems"(1,3) len rs1 rs2
      by (intro "1.IH"[OF w2 True refl refl, where c = "Suc c"]) auto
    then obtain r where r: "merge_pass ?res n w (i + 2 * w) = Some r" "length r = n"
      "mset r = mset ?res" "runs_sorted (2 * w) r" by blast
    have "merge_pass result n w i = Some r"
      using u True w2 r(1) by (simp add: Let_def)
    then show ?thesis using r ms by simp
  qed
qed

lemma width_loop_spec:
  assumes "0 < w" "length result = n" "runs_sorted w result"
  shows "\<exists>r. width_loop result n w = Some r \<and> mset r = mset result \<and> sorted r"
  using assms
proof (induction result n w rule: width_loop.induct)
  case (1 result n w)
  note u = width_loop.simps[of result n w]
  show ?case
  proof (cases "w < n")
    case False
    then have "take w (drop (0 * w) result) = result" using "1.prems"(2) by simp
    then have "sorted result" using "1.prems"(3) unfolding runs_sorted_def by metis
    moreover have "width_loop result n w = Some result" using u False by simp
    ultimately show ?thesis by simp
  next
    case True
    have "\<exists>r. merge_pass result n w 0 = Some r \<and> length r = n \<and> mset r = mset result \<and>
           runs_sorted (2 * w) r"
      using "1.prems" by (intro merge_pass_spec[where c = 0]) (auto simp: runs_sorted_def)
    then obtain r1 where r1: "merge_pass result n w 0 = Some r1" "length r1 = n"
      "mset r1 = mset result" "runs_sorted (2 * w) r1" by blast
    have "\<exists>r. width_loop r1 n (w * 2) = Some r \<and> mset r = mset r1 \<and> sorted r"
      using "1.prems"(1) r1 by (intro "1.IH"[OF True r1(1)]) (auto simp: mult.commute)
    then obtain r where r: "width_loop r1 n (w * 2) = Some r" "mset r = mset r1" "sorted r" by blast
    have "width_loop result n w = Some r" using u True r1(1) r(1) by simp
    then show ?thesis using r r1 by simp
  qed
qed

lemma mergesort_bottom_up_eq_sort: "mergesort_bottom_up A = Some (sort A)"
proof -
  have "runs_sorted 1 A"
    unfolding runs_sorted_def
  proof
    fix k
    have "length (take 1 (drop (k * 1) A)) \<le> 1" by simp
    then show "sorted (take 1 (drop (k * 1) A))"
      by (metis sorted_wrt01 sorted01)
  qed
  then have "\<exists>r. width_loop A (length A) 1 = Some r \<and> mset r = mset A \<and> sorted r"
    by (intro width_loop_spec) auto
  then obtain r where "width_loop A (length A) 1 = Some r" "mset r = mset A" "sorted r" by blast
  then show ?thesis
    using properties_for_sort[of r A] by (simp add: mergesort_bottom_up_def)
qed

text \<open>
  Claim C2. For every input list \<open>A\<close>, running \<^verbatim>\<open>heapsort\<close>, \<^verbatim>\<open>quicksort_hoare\<close>,
  \<^verbatim>\<open>mergesort\<close>, \<^verbatim>\<open>mergesort_bottom_up\<close> and \<^verbatim>\<open>introsort\<close>, each on its own copy of
  \<open>A\<close>, yields five equal output lists: one list \<open>B\<close>, ascending and with the elements of
  \<open>A\<close>, is the result of all five (the equality that \<^verbatim>\<open>main\<close> asserts).
\<close>

theorem sorts_agree:
  "\<exists>B. heapsort A = Some B \<and> quicksort_hoare A 0 None = Some B \<and> mergesort A = B \<and>
       mergesort_bottom_up A = Some B \<and> introsort A = Some B \<and>
       mset B = mset A \<and> sorted B"
  using heapsort_eq_sort[of A] quicksort_hoare_eq_sort[of A] mergesort_eq_sort[of A]
    mergesort_bottom_up_eq_sort[of A] introsort_eq_sort[of A]
  by simp

theorem sorts_agree_witness:
  "heapsort [5, 3, 8, 3, 9, 1] = Some [1, 3, 3, 5, 8, 9] \<and>
   quicksort_hoare [5, 3, 8, 3, 9, 1] 0 None = Some [1, 3, 3, 5, 8, 9] \<and>
   mergesort [5, 3, 8, 3, 9, 1] = [1, 3, 3, 5, 8, 9] \<and>
   mergesort_bottom_up [5, 3, 8, 3, 9, 1] = Some [1, 3, 3, 5, 8, 9] \<and>
   introsort [5, 3, 8, 3, 9, 1] = Some [1, 3, 3, 5, 8, 9]"
proof -
  from sorts_agree[of "[5, 3, 8, 3, 9, 1]"] obtain B where
    B: "heapsort [5, 3, 8, 3, 9, 1] = Some B" "quicksort_hoare [5, 3, 8, 3, 9, 1] 0 None = Some B"
      "mergesort [5, 3, 8, 3, 9, 1] = B" "mergesort_bottom_up [5, 3, 8, 3, 9, 1] = Some B"
      "introsort [5, 3, 8, 3, 9, 1] = Some B"
    by blast
  have "mergesort [5, 3, 8, 3, 9, 1] = [1, 3, 3, 5, 8, 9]" by code_simp
  then have "B = [1, 3, 3, 5, 8, 9]" using B(3) by simp
  then show ?thesis using B by simp
qed

section \<open>Merge sort over a store of list objects\<close>


















end
